theory Spec2Isabelle
  imports Main "HOL-Library.Word" "HOL-Library.Sublist"
begin

unbundle bit_operations_syntax

section \<open>Strings\<close>

text \<open>
  A Python \<open>str\<close> is a sequence of code points. It is modelled as a HOL \<open>string\<close> in
  which every \<open>char\<close> stands for one code point in the range U+0000 .. U+00FF (Latin-1), so
  that \<open>length\<close> counts code points as Python's \<open>len\<close> does. The character classes below are
  Python's Unicode classes restricted to that range.
\<close>

definition code :: "char \<Rightarrow> nat" where
  "code c = of_char c"

text \<open>\<open>str.isspace\<close> on one character: TAB..CR, FS..US, SPACE, NEL and NBSP.\<close>

definition isspace_char :: "char \<Rightarrow> bool" where
  "isspace_char c =
     ((9 \<le> code c \<and> code c \<le> 13) \<or> (28 \<le> code c \<and> code c \<le> 32)
       \<or> code c = 133 \<or> code c = 160)"

text \<open>\<open>str.isspace()\<close>: at least one character, and all of them whitespace.\<close>

definition isspace :: "string \<Rightarrow> bool" where
  "isspace s = (s \<noteq> [] \<and> list_all isspace_char s)"

text \<open>\<open>sep.join(parts)\<close> with \<open>sep = ' '\<close>.\<close>

fun join_sp :: "string list \<Rightarrow> string" where
  "join_sp [] = []"
| "join_sp [x] = x"
| "join_sp (x # y # ys) = x @ CHR '' '' # join_sp (y # ys)"

section \<open>Elements\<close>

text \<open>
  An lxml element: its own text, its children and the text that follows its end tag.
  \<open>itertext\<close> yields the text of the element, then for each child the child's texts followed
  by the child's tail; absent texts are skipped, and the tail of the element itself is not
  part of it.
\<close>

datatype element = Element (el_text: "string option") (el_children: "element list")
  (el_tail: "string option")

definition opt_text :: "string option \<Rightarrow> string list" where
  "opt_text t = (case t of None \<Rightarrow> [] | Some s \<Rightarrow> [s])"

fun itertext :: "element \<Rightarrow> string list" where
  "itertext (Element t cs ta) =
     opt_text t @ concat (map (\<lambda>c. itertext c @ opt_text (el_tail c)) cs)"

section \<open>The LRU cache\<close>

text \<open>
  Modelled from the spec: class \<open>LRUCache\<close> of module \<open>lru\<close> is not among the sources. The
  spec (4.1) describes a map of fixed capacity from keys to counts with least-recently-used
  eviction: \<open>get\<close> returns the count and marks the key most recently used on a hit, and
  leaves the cache alone on a miss; \<open>put\<close> updates an existing key and marks it most recently
  used, and for a new key at capacity evicts the least recently used entry first. The
  entries are kept most recently used first. The value of a miss, \<open>-1\<close>, is the one the
  callers in \<open>filters.py\<close> test for.
\<close>

record lrucache =
  maxsize :: nat
  entries :: "(string \<times> int) list"

definition LRUCache :: "int \<Rightarrow> lrucache option" where
  "LRUCache n = (if n \<le> 0 then None else Some \<lparr>maxsize = nat n, entries = []\<rparr>)"

definition remove_key :: "string \<Rightarrow> (string \<times> int) list \<Rightarrow> (string \<times> int) list" where
  "remove_key k es = filter (\<lambda>e. fst e \<noteq> k) es"

definition lru_get :: "string \<Rightarrow> lrucache \<Rightarrow> int \<times> lrucache" where
  "lru_get k c =
     (case map_of (entries c) k of
        None \<Rightarrow> (- 1, c)
      | Some v \<Rightarrow> (v, c\<lparr>entries := (k, v) # remove_key k (entries c)\<rparr>))"

definition lru_put :: "string \<Rightarrow> int \<Rightarrow> lrucache \<Rightarrow> lrucache" where
  "lru_put k v c =
     (if map_of (entries c) k \<noteq> None
      then c\<lparr>entries := (k, v) # remove_key k (entries c)\<rparr>
      else if maxsize c \<le> length (entries c)
      then c\<lparr>entries := (k, v) # butlast (entries c)\<rparr>
      else c\<lparr>entries := (k, v) # entries c\<rparr>)"

text \<open>The count stored for a key, without touching the cache.\<close>

definition stored_count :: "lrucache \<Rightarrow> string \<Rightarrow> int option" where
  "stored_count c k = map_of (entries c) k"

text \<open>
  The state the spec's data model (3) prescribes: a positive capacity that is never
  exceeded, one entry per key, and counts of at least 1.
\<close>

definition cache_inv :: "lrucache \<Rightarrow> bool" where
  "cache_inv c =
     (0 < maxsize c \<and> length (entries c) \<le> maxsize c \<and> distinct (map fst (entries c))
       \<and> list_all (\<lambda>e. 1 \<le> snd e) (entries c))"

section \<open>Duplicate detection\<close>

text \<open>
  Modelled from the spec: \<open>trim\<close> of module \<open>utils\<close> is not among the sources. The spec (4.2)
  has the comparison key trimmed of leading and trailing whitespace.
\<close>

definition trim :: "string \<Rightarrow> string" where
  "trim s = rev (dropWhile isspace_char (rev (dropWhile isspace_char s)))"

text \<open>The two integers \<open>duplicate_test\<close> reads from the configuration with \<open>getint\<close>.\<close>

record config =
  MIN_DUPLCHECK_SIZE :: int
  MAX_REPETITIONS :: int

text \<open>
  The module-level cache \<open>LRU_TEST\<close> is passed in and returned updated.
\<close>

definition put_in_cache :: "string \<Rightarrow> lrucache \<Rightarrow> lrucache" where
  "put_in_cache teststring c =
     (case lru_get teststring c of
        (cacheval, c1) \<Rightarrow>
          if cacheval \<noteq> - 1 then lru_put teststring (cacheval + 1) c1
          else lru_put teststring 1 c1)"

definition teststring_of :: "element \<Rightarrow> string" where
  "teststring_of element = trim (join_sp (itertext element))"

definition duplicate_test :: "element \<Rightarrow> config \<Rightarrow> lrucache \<Rightarrow> bool \<times> lrucache" where
  "duplicate_test element config c =
     (let teststring = teststring_of element in
      if int (length teststring) > MIN_DUPLCHECK_SIZE config then
        (case lru_get teststring c of
           (cacheval, c1) \<Rightarrow>
             if cacheval > MAX_REPETITIONS config
             then (True, lru_put teststring (cacheval + 1) c1)
             else (False, put_in_cache teststring c1))
      else (False, put_in_cache teststring c))"

text \<open>
  The pipeline calls \<open>duplicate_test\<close> on one block after the other, all on the same cache:
  the answers in order, and the cache left behind.
\<close>

fun duplicate_tests :: "element list \<Rightarrow> config \<Rightarrow> lrucache \<Rightarrow> bool list \<times> lrucache" where
  "duplicate_tests [] config c = ([], c)"
| "duplicate_tests (e # es) config c =
     (case duplicate_test e config c of
        (r, c1) \<Rightarrow> (case duplicate_tests es config c1 of (rs, c2) \<Rightarrow> (r # rs, c2)))"

definition cache_after :: "element list \<Rightarrow> config \<Rightarrow> lrucache \<Rightarrow> lrucache" where
  "cache_after es config c = snd (duplicate_tests es config c)"

definition answers :: "element list \<Rightarrow> config \<Rightarrow> lrucache \<Rightarrow> bool list" where
  "answers es config c = fst (duplicate_tests es config c)"

text \<open>
  How often a comparison key occurs among the blocks of a run, and the condition that the
  calls of a run made for other keys leave the count stored for \<open>t\<close> as it is, that is,
  that none of them evicts \<open>t\<close>.
\<close>

definition occurrences :: "string \<Rightarrow> element list \<Rightarrow> nat" where
  "occurrences t es = length (filter (\<lambda>e. teststring_of e = t) es)"

definition not_evicted :: "string \<Rightarrow> element list \<Rightarrow> config \<Rightarrow> lrucache \<Rightarrow> bool" where
  "not_evicted t es cfg c =
     list_all (\<lambda>i. teststring_of (es ! i) \<noteq> t \<longrightarrow>
                 stored_count (cache_after (take (Suc i) es) cfg c) t =
                 stored_count (cache_after (take i es) cfg c) t) [0..<length es]"

section \<open>Characters and lines\<close>

text \<open>
  The word characters of \<open>\w\<close> in a \<open>str\<close> pattern: the alphanumeric characters and the
  underscore. In Latin-1 these are the ASCII digits and letters, \<open>_\<close>, the ordinal
  indicators, the micro sign, the superscript digits, the vulgar fractions, and the
  accented letters (all of U+00C0 .. U+00FF but the multiplication and division signs).
\<close>

definition is_word :: "char \<Rightarrow> bool" where
  "is_word c =
     ((48 \<le> code c \<and> code c \<le> 57) \<or> (65 \<le> code c \<and> code c \<le> 90) \<or> code c = 95
       \<or> (97 \<le> code c \<and> code c \<le> 122) \<or> code c = 170 \<or> code c = 178 \<or> code c = 179
       \<or> code c = 181 \<or> code c = 185 \<or> code c = 186 \<or> (188 \<le> code c \<and> code c \<le> 190)
       \<or> (192 \<le> code c \<and> code c \<le> 214) \<or> (216 \<le> code c \<and> code c \<le> 246)
       \<or> 248 \<le> code c)"

text \<open>
  Lower case of one character, as \<open>str.lower\<close> and the case-insensitive matching of \<open>re\<close>
  compute it: in Latin-1 the letters \<open>A\<close> .. \<open>Z\<close> and U+00C0 .. U+00DE (but U+00D7) move up
  by 32.
\<close>

definition lower_char :: "char \<Rightarrow> char" where
  "lower_char c =
     (if (65 \<le> code c \<and> code c \<le> 90) \<or> (192 \<le> code c \<and> code c \<le> 214)
          \<or> (216 \<le> code c \<and> code c \<le> 222)
      then char_of (code c + 32) else c)"

definition lower :: "string \<Rightarrow> string" where
  "lower s = map lower_char s"

text \<open>
  \<open>str.splitlines()\<close>: the lines of a string without their line breaks. A line ends at
  LF, VT, FF, CR, FS, GS, RS or NEL, with CR LF counted as one break; a final line break
  does not open another line. The first argument is the line read so far, reversed.
\<close>

definition is_linebreak :: "char \<Rightarrow> bool" where
  "is_linebreak c = ((10 \<le> code c \<and> code c \<le> 13) \<or> (28 \<le> code c \<and> code c \<le> 30) \<or> code c = 133)"

fun splitlines_from :: "string \<Rightarrow> string \<Rightarrow> string list" where
  "splitlines_from cur [] = (if cur = [] then [] else [rev cur])"
| "splitlines_from cur (c # cs) =
     (if is_linebreak c then
        (case cs of
           d # ds \<Rightarrow>
             if code c = 13 \<and> code d = 10 then rev cur # splitlines_from [] ds
             else rev cur # splitlines_from [] cs
         | [] \<Rightarrow> rev cur # splitlines_from [] cs)
      else splitlines_from (c # cur) cs)"

definition splitlines :: "string \<Rightarrow> string list" where
  "splitlines s = splitlines_from [] s"

section \<open>Regular expressions\<close>

text \<open>
  The part of Python's \<open>re\<close> that the two patterns of \<open>filters.py\<close> use: literal characters,
  the classes \<open>\w\<close> and \<open>\W\<close>, repetition of a class at least \<open>n\<close> times (\<open>*\<close> is \<open>{0,}\<close>),
  \<open>?\<close>, sequence, alternation, and \<open>$\<close>. A compiled pattern carries the flag
  \<open>IGNORECASE\<close>.
\<close>

datatype charclass = Lit char | Word | NonWord

datatype regex = Eps | Chr charclass | Rep nat charclass | Opt regex | Seq regex regex
  | Alt "regex list" | Eol

record pattern =
  re :: regex
  ignorecase :: bool

fun class_ok :: "bool \<Rightarrow> charclass \<Rightarrow> char \<Rightarrow> bool" where
  "class_ok ic (Lit c) x = (if ic then lower_char x = lower_char c else x = c)"
| "class_ok ic Word x = is_word x"
| "class_ok ic NonWord x = (\<not> is_word x)"

text \<open>
  \<open>rmatch ic r s\<close> lists what remains of \<open>s\<close> after each way of matching \<open>r\<close> at the start
  of \<open>s\<close>, in the order in which the backtracking matcher tries them: repetitions and \<open>?\<close>
  are greedy, alternatives go left to right. \<open>$\<close> matches at the end of the string and just
  before a newline that ends the string.
\<close>

fun rmatch :: "bool \<Rightarrow> regex \<Rightarrow> string \<Rightarrow> string list" where
  "rmatch ic Eps s = [s]"
| "rmatch ic (Chr c) s = (case s of [] \<Rightarrow> [] | x # xs \<Rightarrow> if class_ok ic c x then [xs] else [])"
| "rmatch ic (Rep n c) s =
     map (\<lambda>k. drop k s) (rev [n..<Suc (length (takeWhile (class_ok ic c) s))])"
| "rmatch ic (Opt r) s = rmatch ic r s @ [s]"
| "rmatch ic (Seq r1 r2) s = concat (map (rmatch ic r2) (rmatch ic r1 s))"
| "rmatch ic (Alt rs) s = concat (map (\<lambda>r. rmatch ic r s) rs)"
| "rmatch ic Eol s = (if s = [] \<or> s = [CHR 0x0A] then [s] else [])"

text \<open>\<open>pattern.match(s)\<close> as a truth value: is there a match at the start of \<open>s\<close>?\<close>

definition re_match :: "pattern \<Rightarrow> string \<Rightarrow> bool" where
  "re_match p s = (rmatch (ignorecase p) (re p) s \<noteq> [])"

text \<open>
  \<open>re.findall\<close> for a pattern without groups: the matched texts from left to right. The
  search takes the first match at the current position and goes on behind it; where nothing
  matches it moves on by one character. After an empty match the next match at the same
  position must not be empty (\<open>must_advance\<close>).
\<close>

function findall_from :: "pattern \<Rightarrow> bool \<Rightarrow> string \<Rightarrow> string list" where
  "findall_from p must_advance s =
     (case filter (\<lambda>rest. \<not> must_advance \<or> length rest < length s)
             (rmatch (ignorecase p) (re p) s) of
        [] \<Rightarrow> (case s of [] \<Rightarrow> [] | c # cs \<Rightarrow> findall_from p False cs)
      | rest # others \<Rightarrow>
          take (length s - length rest) s #
            (if length rest < length s then findall_from p False rest
             else findall_from p True s))"
  by pat_completeness auto
termination
proof (relation "measure (\<lambda>(p, must_advance, s). 2 * length s + (if must_advance then 0 else 1))",
       goal_cases)
  case 1
  show ?case by simp
next
  case (2 p must_advance s c cs)
  then show ?case by simp
next
  case (3 p must_advance s rest others)
  then show ?case by simp
next
  case (4 p must_advance s rest others)
  from 4(1) have "rest \<in> set (filter (\<lambda>rest. \<not> must_advance \<or> length rest < length s)
             (rmatch (ignorecase p) (re p) s))"
    by simp
  with 4(2) have "\<not> must_advance" by simp
  then show ?case by simp
qed

declare findall_from.simps [simp del]

definition findall :: "pattern \<Rightarrow> string \<Rightarrow> string list" where
  "findall p s = findall_from p False s"

fun lit :: "string \<Rightarrow> regex" where
  "lit [] = Eps"
| "lit (c # cs) = Seq (Chr (Lit c)) (lit cs)"

definition RE_FILTER :: pattern where
  "RE_FILTER =
     \<lparr>re = Seq (Rep 0 NonWord)
             (Seq (Alt [lit ''Drucken'',
                        Seq (lit ''E'') (Seq (Opt (lit ''-'')) (lit ''Mail'')),
                        lit ''Facebook'', lit ''Flipboard'', lit ''Google'', lit ''Instagram'',
                        lit ''Linkedin'', lit ''Mail'', lit ''PDF'', lit ''Pinterest'',
                        lit ''Pocket'', lit ''Print'', lit ''Reddit'', lit ''Twitter'',
                        lit ''Whatsapp'', lit ''Xing''])
                  Eol),
      ignorecase = True\<rparr>"

definition RE_WORD5 :: pattern where
  "RE_WORD5 = \<lparr>re = Rep 5 Word, ignorecase = False\<rparr>"

section \<open>The structural text filter\<close>

definition text_chars_test :: "string option \<Rightarrow> bool" where
  "text_chars_test string =
     (case string of
        None \<Rightarrow> False
      | Some s \<Rightarrow> if length s = 0 \<or> isspace s then False else True)"

definition testtext_of :: "element \<Rightarrow> string option" where
  "testtext_of element =
     (if el_text element = None \<and> el_tail element \<noteq> None then el_tail element
      else el_text element)"

fun any_line_matches :: "string list \<Rightarrow> bool" where
  "any_line_matches [] = False"
| "any_line_matches (line # lines) =
     (if re_match RE_FILTER line then True else any_line_matches lines)"

text \<open>
  In the last branch \<open>testtext\<close> is a string: \<open>text_chars_test\<close> is false on \<open>None\<close>.
\<close>

definition textfilter :: "element \<Rightarrow> bool" where
  "textfilter element =
     (let testtext = testtext_of element in
      if text_chars_test testtext = False then True
      else (case testtext of
              None \<Rightarrow> True
            | Some s \<Rightarrow> any_line_matches (splitlines s)))"

section \<open>Hashing and encoding\<close>

text \<open>
  \<open>hashlib.sha1\<close>, \<open>base64.b64encode\<close>, \<open>str.encode\<close> and \<open>bytes.decode\<close> of Python's
  library, on bytes as 8-bit words. SHA-1 follows FIPS 180: the message is padded to a
  multiple of 64 bytes, and each block of sixteen big-endian words is expanded to eighty
  words that drive eighty rounds on five 32-bit words. \<open>encode\<close> is UTF-8 on the code
  points below 256; \<open>decode_ascii\<close> reads ASCII bytes, which is all that \<open>b64encode\<close>
  produces.
\<close>

type_synonym byte = "8 word"

definition rotl :: "nat \<Rightarrow> 32 word \<Rightarrow> 32 word" where
  "rotl n w = push_bit n w OR drop_bit (32 - n) w"

definition be64 :: "nat \<Rightarrow> byte list" where
  "be64 n = map (\<lambda>i. ucast (drop_bit (8 * (7 - i)) (of_nat n :: 64 word))) [0..<8]"

definition sha1_pad :: "byte list \<Rightarrow> byte list" where
  "sha1_pad msg =
     msg @ [0x80] @ replicate ((119 - length msg mod 64) mod 64) 0 @ be64 (8 * length msg)"

fun be32 :: "byte list \<Rightarrow> 32 word list" where
  "be32 (a # b # c # d # bs) =
     (push_bit 24 (ucast a) OR push_bit 16 (ucast b) OR push_bit 8 (ucast c) OR ucast d) # be32 bs"
| "be32 bs = []"

definition be32_bytes :: "32 word \<Rightarrow> byte list" where
  "be32_bytes w = [ucast (drop_bit 24 w), ucast (drop_bit 16 w), ucast (drop_bit 8 w), ucast w]"

definition extend_words :: "32 word list \<Rightarrow> 32 word list" where
  "extend_words w =
     (let t = length w in
      w @ [rotl 1 (w ! (t - 3) XOR w ! (t - 8) XOR w ! (t - 14) XOR w ! (t - 16))])"

fun expand :: "nat \<Rightarrow> 32 word list \<Rightarrow> 32 word list" where
  "expand 0 w = w"
| "expand (Suc n) w = expand n (extend_words w)"

definition schedule :: "byte list \<Rightarrow> 32 word list" where
  "schedule block = expand 64 (be32 block)"

definition f_round :: "nat \<Rightarrow> 32 word \<Rightarrow> 32 word \<Rightarrow> 32 word \<Rightarrow> 32 word" where
  "f_round t b c d =
     (if t < 20 then (b AND c) OR (NOT b AND d)
      else if t < 40 then b XOR c XOR d
      else if t < 60 then (b AND c) OR (b AND d) OR (c AND d)
      else b XOR c XOR d)"

definition k_round :: "nat \<Rightarrow> 32 word" where
  "k_round t =
     (if t < 20 then 0x5A827999 else if t < 40 then 0x6ED9EBA1
      else if t < 60 then 0x8F1BBCDC else 0xCA62C1D6)"

type_synonym sha1_state = "32 word \<times> 32 word \<times> 32 word \<times> 32 word \<times> 32 word"

fun sha1_step :: "nat \<Rightarrow> 32 word \<Rightarrow> sha1_state \<Rightarrow> sha1_state" where
  "sha1_step t w (a, b, c, d, e) =
     (rotl 5 a + f_round t b c d + e + k_round t + w, a, rotl 30 b, c, d)"

fun rounds :: "nat \<Rightarrow> 32 word list \<Rightarrow> sha1_state \<Rightarrow> sha1_state" where
  "rounds t [] st = st"
| "rounds t (w # ws) st = rounds (Suc t) ws (sha1_step t w st)"

fun sha1_block :: "byte list \<Rightarrow> sha1_state \<Rightarrow> sha1_state" where
  "sha1_block block (h0, h1, h2, h3, h4) =
     (case rounds 0 (schedule block) (h0, h1, h2, h3, h4) of
        (a, b, c, d, e) \<Rightarrow> (h0 + a, h1 + b, h2 + c, h3 + d, h4 + e))"

primrec blocks :: "nat \<Rightarrow> byte list \<Rightarrow> byte list list" where
  "blocks 0 bs = []"
| "blocks (Suc n) bs = take 64 bs # blocks n (drop 64 bs)"

definition sha1_init :: sha1_state where
  "sha1_init = (0x67452301, 0xEFCDAB89, 0x98BADCFE, 0x10325476, 0xC3D2E1F0)"

fun sha1_blocks :: "byte list list \<Rightarrow> sha1_state \<Rightarrow> sha1_state" where
  "sha1_blocks [] st = st"
| "sha1_blocks (block # bs) st = sha1_blocks bs (sha1_block block st)"

fun digest :: "sha1_state \<Rightarrow> byte list" where
  "digest (h0, h1, h2, h3, h4) = concat (map be32_bytes [h0, h1, h2, h3, h4])"

definition sha1 :: "byte list \<Rightarrow> byte list" where
  "sha1 msg =
     (let padded = sha1_pad msg in
      digest (sha1_blocks (blocks (length padded div 64) padded) sha1_init))"

definition b64_alphabet :: string where
  "b64_alphabet = ''ABCDEFGHIJKLMNOPQRSTUVWXYZabcdefghijklmnopqrstuvwxyz0123456789+/''"

definition b64_char :: "nat \<Rightarrow> byte" where
  "b64_char i = of_nat (of_char (b64_alphabet ! (i mod 64)))"

fun b64encode :: "byte list \<Rightarrow> byte list" where
  "b64encode (a # b # c # bs) =
     [b64_char (unat a div 4), b64_char (unat a mod 4 * 16 + unat b div 16),
      b64_char (unat b mod 16 * 4 + unat c div 64), b64_char (unat c mod 64)] @ b64encode bs"
| "b64encode [a, b] =
     [b64_char (unat a div 4), b64_char (unat a mod 4 * 16 + unat b div 16),
      b64_char (unat b mod 16 * 4), 0x3D]"
| "b64encode [a] = [b64_char (unat a div 4), b64_char (unat a mod 4 * 16), 0x3D, 0x3D]"
| "b64encode [] = []"

definition encode_char :: "char \<Rightarrow> byte list" where
  "encode_char c =
     (if of_char c < (128 :: nat) then [of_char c]
      else [of_nat (192 + of_char c div 64), of_nat (128 + of_char c mod 64)])"

definition encode :: "string \<Rightarrow> byte list" where
  "encode s = concat (map encode_char s)"

definition decode_ascii :: "byte list \<Rightarrow> string" where
  "decode_ascii bs = map (\<lambda>b. char_of (unat b)) bs"

section \<open>The content fingerprint\<close>

definition content_fingerprint :: "string \<Rightarrow> string" where
  "content_fingerprint string =
     (let teststring = join_sp (findall RE_WORD5 (lower string));
          fingerprint = sha1 (encode teststring)
      in decode_ascii (b64encode fingerprint))"

section \<open>The language gate\<close>

text \<open>
  \<open>LANGID_FLAG\<close> tells whether the import of the detector succeeded, and \<open>get_language\<close> is
  the detector's function; both are parameters. A prediction carries the language code and
  further data that is only logged. The log of \<open>LOGGER\<close> is a list of records, passed in and
  returned with the new records appended; \<open>docmeta\<close> is a dictionary, and reading a key it
  lacks raises \<open>KeyError\<close>.
\<close>

record prediction =
  language :: string
  details :: string

datatype log_level = WARNING

datatype log_arg = Prediction prediction | Str string

record log_record =
  level :: log_level
  msg :: string
  args :: "log_arg list"

datatype py_error = KeyError

definition language_filter ::
  "bool \<Rightarrow> (string \<Rightarrow> prediction) \<Rightarrow> string \<Rightarrow> string \<Rightarrow> string option \<Rightarrow> (string \<rightharpoonup> string)
     \<Rightarrow> log_record list \<Rightarrow> (py_error + bool) \<times> log_record list" where
  "language_filter LANGID_FLAG get_language temp_text temp_comments target_language docmeta log =
     (case target_language of
        None \<Rightarrow> (Inr False, log)
      | Some target \<Rightarrow>
          if LANGID_FLAG then
            (let langtest = (if length temp_comments > length temp_text then temp_comments
                             else temp_text);
                 result = get_language langtest
             in if language result \<noteq> target then
                  (case docmeta ''id'' of
                     None \<Rightarrow> (Inl KeyError, log)
                   | Some i \<Rightarrow>
                       (case docmeta ''url'' of
                          None \<Rightarrow> (Inl KeyError, log)
                        | Some u \<Rightarrow>
                            (Inr True,
                             log @ [\<lparr>level = WARNING, msg = ''wrong language: %s %s %s'',
                                     args = [Prediction result, Str i, Str u]\<rparr>])))
                else (Inr False, log))
          else
            (Inr False,
             log @ [\<lparr>level = WARNING,
                     msg = ''Detector not installed, no language detection run'',
                     args = []\<rparr>]))"

section \<open>Notions used to state the properties of the text filter\<close>

text \<open>
  The fixed labels of the pattern \<open>RE_FILTER\<close>, with both spellings of \<open>E-?Mail\<close>.
\<close>

definition labels :: "string list" where
  "labels = [''Drucken'', ''E-Mail'', ''EMail'', ''Facebook'', ''Flipboard'', ''Google'',
             ''Instagram'', ''Linkedin'', ''Mail'', ''PDF'', ''Pinterest'', ''Pocket'', ''Print'',
             ''Reddit'', ''Twitter'', ''Whatsapp'', ''Xing'']"


text \<open>
  The words of the spec: the pieces of a string between its non-word characters, the
  maximal runs of word characters (the pieces that are not empty), and the qualifying
  tokens, the runs of length at least 5. \<open>has_word_run n s\<close> says that \<open>s\<close> has \<open>n\<close> word
  characters in a row somewhere.
\<close>

fun split_nonword :: "string \<Rightarrow> string list" where
  "split_nonword [] = [[]]"
| "split_nonword (c # cs) =
     (if is_word c then
        (case split_nonword cs of [] \<Rightarrow> [[c]] | r # rs \<Rightarrow> (c # r) # rs)
      else [] # split_nonword cs)"

definition word_runs :: "string \<Rightarrow> string list" where
  "word_runs s = filter (\<lambda>r. r \<noteq> []) (split_nonword s)"

definition qualifying_tokens :: "string \<Rightarrow> string list" where
  "qualifying_tokens s = filter (\<lambda>w. 5 \<le> length w) (word_runs s)"

definition has_word_run :: "nat \<Rightarrow> string \<Rightarrow> bool" where
  "has_word_run n s =
     list_ex (\<lambda>i. i + n \<le> length s \<and> list_all is_word (take n (drop i s))) [0..<Suc (length s)]"

text \<open>The control characters: the code points of the Unicode category Cc.\<close>

definition is_control :: "char \<Rightarrow> bool" where
  "is_control c = (code c < 32 \<or> (127 \<le> code c \<and> code c < 160))"


text \<open>
  The strings a pattern without \<open>$\<close> can match in full, and the alternation of
  \<open>RE_FILTER\<close> on its own.
\<close>

primrec lang :: "bool \<Rightarrow> regex \<Rightarrow> string set" where
  "lang ic Eps = {[]}"
| "lang ic (Chr c) = {[x] | x. class_ok ic c x}"
| "lang ic (Rep n c) = {m. n \<le> length m \<and> list_all (class_ok ic c) m}"
| "lang ic (Opt r) = lang ic r \<union> {[]}"
| "lang ic (Seq r1 r2) = {m1 @ m2 | m1 m2. m1 \<in> lang ic r1 \<and> m2 \<in> lang ic r2}"
| "lang ic (Alt rs) = \<Union> (set (map (lang ic) rs))"
| "lang ic Eol = {}"

primrec eol_free :: "regex \<Rightarrow> bool" where
  "eol_free Eps = True"
| "eol_free (Chr c) = True"
| "eol_free (Rep n c) = True"
| "eol_free (Opt r) = eol_free r"
| "eol_free (Seq r1 r2) = (eol_free r1 \<and> eol_free r2)"
| "eol_free (Alt rs) = list_all eol_free rs"
| "eol_free Eol = False"


definition label_alternatives :: regex where
  "label_alternatives =
     Alt [lit ''Drucken'',
          Seq (lit ''E'') (Seq (Opt (lit ''-'')) (lit ''Mail'')),
          lit ''Facebook'', lit ''Flipboard'', lit ''Google'', lit ''Instagram'',
          lit ''Linkedin'', lit ''Mail'', lit ''PDF'', lit ''Pinterest'',
          lit ''Pocket'', lit ''Print'', lit ''Reddit'', lit ''Twitter'',
          lit ''Whatsapp'', lit ''Xing'']"


section \<open>Examples\<close>

text \<open>
  Three blocks and a configuration for running the detector: the first block has a child,
  and its comparison key is \<open>Share this page\<close>; the second has the key \<open>ok\<close>, the third
  the key \<open>Read more here\<close>.
\<close>

definition share_block :: element where
  "share_block = Element (Some ''Share'') [Element (Some ''this'') [] (Some ''page'')] None"

definition ok_block :: element where
  "ok_block = Element (Some '' ok '') [] None"

definition more_block :: element where
  "more_block = Element (Some ''Read more here'') [] None"

definition config0 :: config where
  "config0 = \<lparr>MIN_DUPLCHECK_SIZE = 5, MAX_REPETITIONS = 2\<rparr>"

section \<open>Properties of the cache\<close>

lemma map_of_remove_key_same: "map_of (remove_key k es) k = None"
  by (induction es) (auto simp: remove_key_def)

lemma map_of_remove_key_other: "k' \<noteq> k \<Longrightarrow> map_of (remove_key k es) k' = map_of es k'"
  by (induction es) (auto simp: remove_key_def)

lemma stored_count_get:
  "stored_count (snd (lru_get k c)) k' = stored_count c k'"
  by (cases "k' = k")
     (auto simp: lru_get_def stored_count_def map_of_remove_key_other split: option.splits)

lemma fst_lru_get:
  "fst (lru_get k c) = (case stored_count c k of None \<Rightarrow> - 1 | Some v \<Rightarrow> v)"
  by (simp add: lru_get_def stored_count_def split: option.splits)

lemma stored_count_put_same: "stored_count (lru_put k v c) k = Some v"
  by (simp add: lru_put_def stored_count_def)

lemma set_remove_key: "set (remove_key k es) \<subseteq> set es"
  by (auto simp: remove_key_def)

lemma distinct_remove_key: "distinct (map fst es) \<Longrightarrow> distinct (map fst (remove_key k es))"
  by (simp add: remove_key_def distinct_map_filter)

lemma key_notin_remove_key: "k \<notin> fst ` set (remove_key k es)"
  by (auto simp: remove_key_def)

lemma length_remove_key_present:
  "map_of es k = Some v \<Longrightarrow> length (remove_key k es) < length es"
proof -
  assume "map_of es k = Some v"
  then have "(k, v) \<in> set es" by (rule map_of_SomeD)
  then show ?thesis unfolding remove_key_def by (rule length_filter_less) simp
qed

lemma cache_inv_get: "cache_inv c \<Longrightarrow> cache_inv (snd (lru_get k c))"
proof (cases "map_of (entries c) k")
  case None
  assume "cache_inv c"
  with None show ?thesis by (simp add: lru_get_def)
next
  case (Some v)
  assume inv: "cache_inv c"
  from Some have len: "length (remove_key k (entries c)) < length (entries c)"
    by (rule length_remove_key_present)
  from Some have "(k, v) \<in> set (entries c)" by (rule map_of_SomeD)
  with inv have v: "1 \<le> v" by (auto simp: cache_inv_def list_all_iff)
  from inv have "list_all (\<lambda>e. 1 \<le> snd e) (remove_key k (entries c))"
    using set_remove_key [of k "entries c"] by (auto simp: cache_inv_def list_all_iff)
  with inv len v Some show ?thesis
    using key_notin_remove_key [of k "entries c"]
    by (simp add: lru_get_def cache_inv_def distinct_remove_key)
qed

lemma cache_inv_put: 
  assumes inv: "cache_inv c" and v: "1 \<le> v"
  shows "cache_inv (lru_put k v c)"
proof (cases "map_of (entries c) k")
  case (Some w)
  from Some have len: "length (remove_key k (entries c)) < length (entries c)"
    by (rule length_remove_key_present)
  from inv have "list_all (\<lambda>e. 1 \<le> snd e) (remove_key k (entries c))"
    using set_remove_key [of k "entries c"] by (auto simp: cache_inv_def list_all_iff)
  with inv len v Some show ?thesis
    using key_notin_remove_key [of k "entries c"]
    by (simp add: lru_put_def cache_inv_def distinct_remove_key)
next
  case None
  then have notin: "k \<notin> fst ` set (entries c)" by (simp add: map_of_eq_None_iff)
  show ?thesis
  proof (cases "maxsize c \<le> length (entries c)")
    case True
    have sub: "set (butlast (entries c)) \<subseteq> set (entries c)"
      by (auto dest: in_set_butlastD)
    from inv have d: "distinct (map fst (butlast (entries c)))"
      by (simp add: cache_inv_def map_butlast distinct_butlast)
    from inv True have ne: "entries c \<noteq> []" by (auto simp: cache_inv_def)
    from inv sub have "list_all (\<lambda>e. 1 \<le> snd e) (butlast (entries c))"
      by (auto simp: cache_inv_def list_all_iff)
    with inv v None True sub d ne notin show ?thesis 
      by (auto simp: lru_put_def cache_inv_def)
  next
    case False
    with inv v None notin show ?thesis
      by (auto simp: lru_put_def cache_inv_def)
  qed
qed

lemma stored_count_inv: "cache_inv c \<Longrightarrow> stored_count c k = Some v \<Longrightarrow> 1 \<le> v"
  by (auto simp: cache_inv_def stored_count_def list_all_iff dest!: map_of_SomeD)

lemma cache_inv_put_in_cache: 
  assumes "cache_inv c" shows "cache_inv (put_in_cache k c)"
proof -
  obtain v c1 where g: "lru_get k c = (v, c1)" by (cases "lru_get k c")
  then have c1: "c1 = snd (lru_get k c)" and v: "v = fst (lru_get k c)" by simp_all
  from c1 assms have inv1: "cache_inv c1" by (simp add: cache_inv_get)
  show ?thesis
  proof (cases "stored_count c k")
    case None
    with v have "v = - 1" by (simp add: fst_lru_get)
    with g inv1 show ?thesis by (simp add: put_in_cache_def cache_inv_put)
  next
    case (Some w)
    with v have "v = w" by (simp add: fst_lru_get)
    moreover from Some assms have "1 \<le> w" by (rule stored_count_inv [rotated])
    ultimately show ?thesis using g inv1 by (simp add: put_in_cache_def cache_inv_put)
  qed
qed

lemma stored_count_put_in_cache:
  assumes "cache_inv c"
  shows "stored_count (put_in_cache k c) k =
         Some (case stored_count c k of None \<Rightarrow> 1 | Some v \<Rightarrow> v + 1)"
proof -
  obtain v c1 where g: "lru_get k c = (v, c1)" by (cases "lru_get k c")
  then have v: "v = fst (lru_get k c)" by simp
  show ?thesis
  proof (cases "stored_count c k")
    case None
    with v have "v = - 1" by (simp add: fst_lru_get)
    with g None show ?thesis by (simp add: put_in_cache_def stored_count_put_same)
  next
    case (Some w)
    with v have "v = w" by (simp add: fst_lru_get)
    moreover from Some assms have "1 \<le> w" by (rule stored_count_inv [rotated])
    ultimately show ?thesis using g Some by (simp add: put_in_cache_def stored_count_put_same)
  qed
qed

lemma duplicate_test_answer:
  "fst (duplicate_test e cfg c) =
     (MIN_DUPLCHECK_SIZE cfg < int (length (teststring_of e)) \<and>
      MAX_REPETITIONS cfg < (case stored_count c (teststring_of e) of None \<Rightarrow> - 1 | Some v \<Rightarrow> v))"
proof -
  obtain v c1 where g: "lru_get (teststring_of e) c = (v, c1)"
    by (cases "lru_get (teststring_of e) c")
  then have "v = fst (lru_get (teststring_of e) c)" by simp
  then have "v = (case stored_count c (teststring_of e) of None \<Rightarrow> - 1 | Some v \<Rightarrow> v)"
    by (simp add: fst_lru_get)
  with g show ?thesis by (simp add: duplicate_test_def Let_def)
qed

lemma duplicate_test_count:
  assumes inv: "cache_inv c"
    and dom: "int (length (teststring_of e)) \<le> MIN_DUPLCHECK_SIZE cfg \<or> - 1 \<le> MAX_REPETITIONS cfg"
  shows "stored_count (snd (duplicate_test e cfg c)) (teststring_of e) =
         Some (case stored_count c (teststring_of e) of None \<Rightarrow> 1 | Some v \<Rightarrow> v + 1)"
proof -
  let ?t = "teststring_of e"
  obtain v c1 where g: "lru_get ?t c = (v, c1)" by (cases "lru_get ?t c")
  then have v: "v = (case stored_count c ?t of None \<Rightarrow> - 1 | Some v \<Rightarrow> v)"
    and c1: "c1 = snd (lru_get ?t c)"
    using fst_lru_get [of ?t c] by simp_all
  from c1 inv have inv1: "cache_inv c1" by (simp add: cache_inv_get)
  from c1 have sc1: "stored_count c1 ?t = stored_count c ?t" by (simp add: stored_count_get)
  show ?thesis
  proof (cases "MIN_DUPLCHECK_SIZE cfg < int (length ?t)")
    case False
    then show ?thesis using inv by (simp add: duplicate_test_def stored_count_put_in_cache)
  next
    case long: True
    with dom have mr: "- 1 \<le> MAX_REPETITIONS cfg" by simp
    show ?thesis
    proof (cases "MAX_REPETITIONS cfg < v")
      case True
      with mr v obtain w where "stored_count c ?t = Some w" "v = w"
        by (cases "stored_count c ?t") auto
      with True long g show ?thesis
        by (simp add: duplicate_test_def stored_count_put_same)
    next
      case False
      with long g inv1 sc1 show ?thesis
        by (simp add: duplicate_test_def stored_count_put_in_cache)
    qed
  qed
qed

lemma cache_inv_duplicate_test:
  assumes inv: "cache_inv c" and mr: "- 1 \<le> MAX_REPETITIONS cfg"
  shows "cache_inv (snd (duplicate_test e cfg c))"
proof -
  let ?t = "teststring_of e"
  obtain v c1 where g: "lru_get ?t c = (v, c1)" by (cases "lru_get ?t c")
  then have c1: "c1 = snd (lru_get ?t c)" by simp
  from c1 inv have inv1: "cache_inv c1" by (simp add: cache_inv_get)
  show ?thesis
  proof (cases "MIN_DUPLCHECK_SIZE cfg < int (length ?t) \<and> MAX_REPETITIONS cfg < v")
    case True
    with mr have "1 \<le> v + 1" by simp
    with True g inv1 show ?thesis by (simp add: duplicate_test_def cache_inv_put)
  next
    case False
    with g inv inv1 show ?thesis
      by (auto simp: duplicate_test_def Let_def cache_inv_put_in_cache)
  qed
qed

section \<open>Runs of the duplicate detector\<close>

lemma duplicate_tests_snoc:
  "duplicate_tests (es @ [e]) cfg c =
     (fst (duplicate_tests es cfg c) @ [fst (duplicate_test e cfg (snd (duplicate_tests es cfg c)))],
      snd (duplicate_test e cfg (snd (duplicate_tests es cfg c))))"
  by (induction es arbitrary: c) (auto split: prod.splits)

lemma cache_after_Nil: "cache_after [] cfg c = c"
  by (simp add: cache_after_def)

lemma cache_after_snoc:
  "cache_after (es @ [e]) cfg c = snd (duplicate_test e cfg (cache_after es cfg c))"
  by (simp add: cache_after_def duplicate_tests_snoc)

lemma answers_snoc:
  "answers (es @ [e]) cfg c = answers es cfg c @ [fst (duplicate_test e cfg (cache_after es cfg c))]"
  by (simp add: cache_after_def answers_def duplicate_tests_snoc)

lemma length_answers: "length (answers es cfg c) = length es"
proof (induction es rule: rev_induct)
  case Nil
  then show ?case by (simp add: answers_def)
next
  case (snoc e es)
  then show ?case by (simp add: answers_snoc)
qed

lemma cache_after_take_Suc:
  "i < length es \<Longrightarrow>
   cache_after (take (Suc i) es) cfg c = snd (duplicate_test (es ! i) cfg (cache_after (take i es) cfg c))"
  by (simp add: take_Suc_conv_app_nth cache_after_snoc)

lemma answers_nth:
  "i < length es \<Longrightarrow>
   answers es cfg c ! i = fst (duplicate_test (es ! i) cfg (cache_after (take i es) cfg c))"
proof (induction es rule: rev_induct)
  case Nil
  then show ?case by simp
next
  case (snoc e es)
  show ?case
  proof (cases "i < length es")
    case True
    with snoc show ?thesis by (simp add: answers_snoc nth_append length_answers)
  next
    case False
    with snoc.prems have "i = length es" by simp
    then show ?thesis by (simp add: answers_snoc nth_append length_answers)
  qed
qed

lemma cache_inv_cache_after:
  "cache_inv c \<Longrightarrow> - 1 \<le> MAX_REPETITIONS cfg \<Longrightarrow> cache_inv (cache_after es cfg c)"
  by (induction es rule: rev_induct)
     (simp_all add: cache_after_Nil cache_after_snoc cache_inv_duplicate_test)

lemma not_evicted_iff:
  "not_evicted t es cfg c \<longleftrightarrow>
     (\<forall>i<length es. teststring_of (es ! i) \<noteq> t \<longrightarrow>
        stored_count (cache_after (take (Suc i) es) cfg c) t =
        stored_count (cache_after (take i es) cfg c) t)"
  by (auto simp: not_evicted_def list_all_iff)

lemma not_evicted_snoc:
  "not_evicted t (es @ [e]) cfg c \<longleftrightarrow>
     not_evicted t es cfg c \<and>
     (teststring_of e \<noteq> t \<longrightarrow>
        stored_count (cache_after (es @ [e]) cfg c) t = stored_count (cache_after es cfg c) t)"
  by (auto simp: not_evicted_iff less_Suc_eq nth_append)

lemma not_evicted_take: "not_evicted t es cfg c \<Longrightarrow> not_evicted t (take n es) cfg c"
proof (induction es rule: rev_induct)
  case Nil
  then show ?case by simp
next
  case (snoc e es)
  then show ?case by (cases "n \<le> length es") (simp_all add: not_evicted_snoc)
qed

lemma occurrences_snoc:
  "occurrences t (es @ [e]) = occurrences t es + (if teststring_of e = t then 1 else 0)"
  by (simp add: occurrences_def)

lemma stored_count_cache_after:
  assumes inv: "cache_inv c" and mr: "- 1 \<le> MAX_REPETITIONS cfg"
  shows "not_evicted t es cfg c \<Longrightarrow>
         stored_count (cache_after es cfg c) t =
           (if occurrences t es = 0 then stored_count c t
            else Some ((case stored_count c t of None \<Rightarrow> 0 | Some v \<Rightarrow> v) + int (occurrences t es)))"
proof (induction es rule: rev_induct)
  case Nil
  then show ?case by (simp add: cache_after_Nil occurrences_def)
next
  case (snoc e es)
  from snoc.prems have ne: "not_evicted t es cfg c"
    and other: "teststring_of e \<noteq> t \<Longrightarrow>
      stored_count (cache_after (es @ [e]) cfg c) t = stored_count (cache_after es cfg c) t"
    by (simp_all add: not_evicted_snoc)
  note IH = snoc.IH [OF ne]
  show ?case
  proof (cases "teststring_of e = t")
    case False
    with other IH show ?thesis by (simp add: occurrences_snoc)
  next
    case True
    from inv mr have "cache_inv (cache_after es cfg c)" by (rule cache_inv_cache_after)
    then have "stored_count (cache_after (es @ [e]) cfg c) (teststring_of e) =
      Some (case stored_count (cache_after es cfg c) (teststring_of e) of None \<Rightarrow> 1 | Some v \<Rightarrow> v + 1)"
      unfolding cache_after_snoc using mr by (intro duplicate_test_count) simp_all
    with True IH show ?thesis
      by (auto simp: occurrences_snoc split: option.splits)
  qed
qed

section \<open>Claims about the duplicate detector\<close>

lemma teststring_of_share_block: "teststring_of share_block = ''Share this page''"
  by code_simp

lemma teststring_of_ok_block: "teststring_of ok_block = ''ok''"
  by code_simp

text \<open>
  Claim C1, as stated, says nothing of eviction. The cache is bounded: with a capacity of
  2, two blocks with other texts push the key \<open>Share this page\<close> out after its first
  occurrence, the count starts again from a miss, and the fourth occurrence of the text
  (the sixth block of the run) is answered "not a repeat".
\<close>

theorem threshold_boundary_eviction:
  "cache_inv \<lparr>maxsize = 2, entries = []\<rparr> \<and>
   stored_count \<lparr>maxsize = 2, entries = []\<rparr> (teststring_of share_block) = None \<and>
   MAX_REPETITIONS config0 = 2 \<and>
   MIN_DUPLCHECK_SIZE config0 < int (length (teststring_of share_block)) \<and>
   occurrences (teststring_of share_block)
     [share_block, ok_block, more_block, share_block, share_block] = 3 \<and>
   answers
     [share_block, ok_block, more_block, share_block, share_block, share_block, share_block]
     config0 \<lparr>maxsize = 2, entries = []\<rparr>
     = [False, False, False, False, False, False, True]"
  by code_simp

text \<open>
  Claim C1, amended by the condition that no call made for another text evicts the key.
  With \<open>MAX_REPETITIONS = 2\<close>, take a text \<open>t\<close> longer than the minimum size that the cache
  does not hold yet, and any run of blocks in which no call made for another text evicts
  \<open>t\<close>. A call made for \<open>t\<close> answers "repeat" exactly when \<open>t\<close> has occurred at least three
  times before in the run: the first, second and third occurrence are not repeats, the
  fourth and all later ones are. The answer is the comparison of the count stored before the
  call with \<open>MAX_REPETITIONS\<close>, a miss counting as \<open>-1\<close>, and after the call for the
  \<open>n\<close>-th occurrence the stored count is \<open>n\<close>.
\<close>

theorem threshold_boundary:
  assumes inv: "cache_inv c"
    and fresh: "stored_count c t = None"
    and mr: "MAX_REPETITIONS cfg = 2"
    and long: "MIN_DUPLCHECK_SIZE cfg < int (length t)"
    and kept: "not_evicted t es cfg c"
    and i: "i < length es"
    and t: "teststring_of (es ! i) = t"
  shows "answers es cfg c ! i = (3 \<le> occurrences t (take i es)) \<and>
         answers es cfg c ! i =
           (MAX_REPETITIONS cfg <
              (case stored_count (cache_after (take i es) cfg c) t of None \<Rightarrow> - 1 | Some v \<Rightarrow> v)) \<and>
         stored_count (cache_after (take (Suc i) es) cfg c) t =
           Some (int (occurrences t (take i es)) + 1)"
proof -
  let ?before = "cache_after (take i es) cfg c"
  from mr have mr': "- 1 \<le> MAX_REPETITIONS cfg" by simp
  from kept have "not_evicted t (take i es) cfg c" by (rule not_evicted_take)
  with inv mr' have before: "stored_count ?before t =
      (if occurrences t (take i es) = 0 then None else Some (int (occurrences t (take i es))))"
    by (simp add: stored_count_cache_after fresh)
  from inv mr' have inv': "cache_inv ?before" by (rule cache_inv_cache_after)
  have ans: "answers es cfg c ! i =
      (MAX_REPETITIONS cfg < (case stored_count ?before t of None \<Rightarrow> - 1 | Some v \<Rightarrow> v))"
    using i t long by (simp add: answers_nth duplicate_test_answer)
  have "stored_count (cache_after (take (Suc i) es) cfg c) (teststring_of (es ! i)) =
      Some (case stored_count ?before (teststring_of (es ! i)) of None \<Rightarrow> 1 | Some v \<Rightarrow> v + 1)"
    unfolding cache_after_take_Suc [OF i] using inv' mr' by (intro duplicate_test_count) simp_all
  then have after: "stored_count (cache_after (take (Suc i) es) cfg c) t =
      Some (int (occurrences t (take i es)) + 1)"
    by (simp add: t before)
  from ans before mr have "answers es cfg c ! i = (3 \<le> occurrences t (take i es))"
    by auto
  with ans after show ?thesis by blast
qed

theorem threshold_boundary_witness:
  "cache_inv \<lparr>maxsize = 2, entries = []\<rparr> \<and>
   stored_count \<lparr>maxsize = 2, entries = []\<rparr> ''Share this page'' = None \<and>
   MAX_REPETITIONS config0 = 2 \<and>
   MIN_DUPLCHECK_SIZE config0 < int (length ''Share this page'') \<and>
   not_evicted ''Share this page''
     [share_block, ok_block, share_block, share_block, share_block, share_block]
     config0 \<lparr>maxsize = 2, entries = []\<rparr> \<and>
   answers [share_block, ok_block, share_block, share_block, share_block, share_block]
     config0 \<lparr>maxsize = 2, entries = []\<rparr> ! 4 = True \<and>
   stored_count
     (cache_after (take 5 [share_block, ok_block, share_block, share_block, share_block, share_block])
        config0 \<lparr>maxsize = 2, entries = []\<rparr>) ''Share this page'' = Some 4"
proof -
  let ?c = "\<lparr>maxsize = 2, entries = []\<rparr>"
  let ?es = "[share_block, ok_block, share_block, share_block, share_block, share_block]"
  have h1: "cache_inv ?c" by code_simp
  have h2: "stored_count ?c ''Share this page'' = None" by code_simp
  have h3: "MAX_REPETITIONS config0 = 2" by (simp add: config0_def)
  have h4: "MIN_DUPLCHECK_SIZE config0 < int (length ''Share this page'')"
    by (simp add: config0_def)
  have h5: "not_evicted ''Share this page'' ?es config0 ?c" by code_simp
  have h6: "4 < length ?es" by simp
  have h7: "teststring_of (?es ! 4) = ''Share this page''"
    by (simp add: teststring_of_share_block)
  have occ: "occurrences ''Share this page'' [share_block, ok_block, share_block, share_block] = 3"
    by (simp add: occurrences_def teststring_of_share_block teststring_of_ok_block)
  from threshold_boundary [OF h1 h2 h3 h4 h5 h6 h7]
  have "answers ?es config0 ?c ! 4 = True"
    and "stored_count (cache_after (take (Suc 4) ?es) config0 ?c) ''Share this page'' = Some 4"
    by (simp_all add: occ)
  with h1 h2 h3 h4 h5 show ?thesis by simp
qed

text \<open>
  Claim C3. A block whose normalized text is no longer than \<open>MIN_DUPLCHECK_SIZE\<close> (the empty
  text included) is never a repeat, whatever count the cache holds for it, and the call
  still records the observation: a stored count is incremented by 1, an absent one becomes 1.
\<close>

theorem min_size_exemption:
  assumes "cache_inv c"
    and "int (length (teststring_of e)) \<le> MIN_DUPLCHECK_SIZE cfg"
  shows "fst (duplicate_test e cfg c) = False \<and>
         stored_count (snd (duplicate_test e cfg c)) (teststring_of e) =
           Some (case stored_count c (teststring_of e) of None \<Rightarrow> 1 | Some v \<Rightarrow> v + 1)"
proof
  from assms(2) show "fst (duplicate_test e cfg c) = False"
    by (simp add: duplicate_test_answer)
next
  from assms show "stored_count (snd (duplicate_test e cfg c)) (teststring_of e) =
           Some (case stored_count c (teststring_of e) of None \<Rightarrow> 1 | Some v \<Rightarrow> v + 1)"
    by (intro duplicate_test_count) simp_all
qed

theorem min_size_exemption_witness:
  "cache_inv \<lparr>maxsize = 2, entries = [(''ok'', 7)]\<rparr> \<and>
   int (length (teststring_of ok_block)) \<le> MIN_DUPLCHECK_SIZE config0 \<and>
   fst (duplicate_test ok_block config0 \<lparr>maxsize = 2, entries = [(''ok'', 7)]\<rparr>) = False \<and>
   stored_count (snd (duplicate_test ok_block config0 \<lparr>maxsize = 2, entries = [(''ok'', 7)]\<rparr>))
     ''ok'' = Some 8"
proof -
  let ?c = "\<lparr>maxsize = 2, entries = [(''ok'', 7)]\<rparr>"
  have h1: "cache_inv ?c" by code_simp
  have h2: "int (length (teststring_of ok_block)) \<le> MIN_DUPLCHECK_SIZE config0"
    by (simp add: teststring_of_ok_block config0_def)
  have sc: "stored_count ?c ''ok'' = Some 7" by (simp add: stored_count_def)
  from min_size_exemption [OF h1 h2] h1 h2 show ?thesis
    by (simp add: teststring_of_ok_block sc)
qed

text \<open>
  Claim C5. With \<open>MAX_REPETITIONS\<close> in the range of the configuration (at least 0; \<open>-1\<close> is
  enough), every call made for a text \<open>t\<close> stores the count 1 when the cache holds none for
  \<open>t\<close> and the stored count plus 1 otherwise, below and above the repeat threshold alike.
  Over a run in which no call made for another text evicts \<open>t\<close>, the stored count is
  therefore the count at the start plus the number of calls made for \<open>t\<close>: it never
  decreases. The text may be of any length.
\<close>

theorem count_monotonicity:
  assumes inv: "cache_inv c"
    and mr: "- 1 \<le> MAX_REPETITIONS cfg"
    and kept: "not_evicted t es cfg c"
  shows "(\<forall>i<length es. teststring_of (es ! i) = t \<longrightarrow>
            stored_count (cache_after (take (Suc i) es) cfg c) t =
              Some (case stored_count (cache_after (take i es) cfg c) t of
                      None \<Rightarrow> 1 | Some v \<Rightarrow> v + 1)) \<and>
         stored_count (cache_after es cfg c) t =
           (if occurrences t es = 0 then stored_count c t
            else Some ((case stored_count c t of None \<Rightarrow> 0 | Some v \<Rightarrow> v)
                        + int (occurrences t es)))"
proof (intro conjI allI impI)
  fix i assume i: "i < length es" and t: "teststring_of (es ! i) = t"
  from inv mr have inv': "cache_inv (cache_after (take i es) cfg c)"
    by (rule cache_inv_cache_after)
  have "stored_count (cache_after (take (Suc i) es) cfg c) (teststring_of (es ! i)) =
      Some (case stored_count (cache_after (take i es) cfg c) (teststring_of (es ! i)) of
              None \<Rightarrow> 1 | Some v \<Rightarrow> v + 1)"
    unfolding cache_after_take_Suc [OF i] using inv' mr by (intro duplicate_test_count) simp_all
  then show "stored_count (cache_after (take (Suc i) es) cfg c) t =
      Some (case stored_count (cache_after (take i es) cfg c) t of None \<Rightarrow> 1 | Some v \<Rightarrow> v + 1)"
    by (simp add: t)
next
  from inv mr kept show "stored_count (cache_after es cfg c) t =
           (if occurrences t es = 0 then stored_count c t
            else Some ((case stored_count c t of None \<Rightarrow> 0 | Some v \<Rightarrow> v)
                        + int (occurrences t es)))"
    by (rule stored_count_cache_after)
qed

theorem count_monotonicity_witness:
  "cache_inv \<lparr>maxsize = 2, entries = [(''Share this page'', 9)]\<rparr> \<and>
   - 1 \<le> MAX_REPETITIONS config0 \<and>
   not_evicted ''Share this page'' [share_block, ok_block, share_block] config0
     \<lparr>maxsize = 2, entries = [(''Share this page'', 9)]\<rparr> \<and>
   stored_count (cache_after [share_block, ok_block, share_block] config0
     \<lparr>maxsize = 2, entries = [(''Share this page'', 9)]\<rparr>) ''Share this page'' = Some 11"
proof -
  let ?c = "\<lparr>maxsize = 2, entries = [(''Share this page'', 9)]\<rparr>"
  let ?es = "[share_block, ok_block, share_block]"
  have h1: "cache_inv ?c" by code_simp
  have h2: "- 1 \<le> MAX_REPETITIONS config0" by (simp add: config0_def)
  have h3: "not_evicted ''Share this page'' ?es config0 ?c" by code_simp
  have occ: "occurrences ''Share this page'' ?es = 2"
    by (simp add: occurrences_def teststring_of_share_block teststring_of_ok_block)
  have sc: "stored_count ?c ''Share this page'' = Some 9" by (simp add: stored_count_def)
  from count_monotonicity [OF h1 h2 h3]
  have "stored_count (cache_after ?es config0 ?c) ''Share this page'' = Some 11"
    by (simp add: occ sc)
  with h1 h2 h3 show ?thesis by simp
qed

section \<open>Regular expressions: what a pattern matches\<close>

lemma rmatch_Rep_set:
  "set (rmatch ic (Rep n c) s) = {t. \<exists>m. s = m @ t \<and> n \<le> length m \<and> list_all (class_ok ic c) m}"
proof (intro set_eqI iffI)
  fix t assume "t \<in> set (rmatch ic (Rep n c) s)"
  then obtain k where k: "n \<le> k" "k \<le> length (takeWhile (class_ok ic c) s)" and t: "t = drop k s"
    by auto
  have "length (takeWhile (class_ok ic c) s) \<le> length s" by (rule length_takeWhile_le)
  have "take k s = take k (takeWhile (class_ok ic c) s)"
    using k(2) by (metis append_eq_conv_conj takeWhile_dropWhile_id take_all_iff take_append
        append_Nil2 diff_is_0_eq' take_0)
  then have "list_all (class_ok ic c) (take k s)"
    by (metis in_set_takeD list_all_iff set_takeWhileD)
  moreover have "s = take k s @ t" by (simp add: t)
  moreover have "n \<le> length (take k s)" using k \<open>length (takeWhile (class_ok ic c) s) \<le> length s\<close> by simp
  ultimately show "t \<in> {t. \<exists>m. s = m @ t \<and> n \<le> length m \<and> list_all (class_ok ic c) m}" by blast
next
  fix t assume "t \<in> {t. \<exists>m. s = m @ t \<and> n \<le> length m \<and> list_all (class_ok ic c) m}"
  then obtain m where m: "s = m @ t" "n \<le> length m" "list_all (class_ok ic c) m" by blast
  then have "length m \<le> length (takeWhile (class_ok ic c) s)"
    by (simp add: list_all_iff takeWhile_append2)
  moreover have "t = drop (length m) s" using m by simp
  ultimately have "length m \<in> set (rev [n..<Suc (length (takeWhile (class_ok ic c) s))])"
    and "t = drop (length m) s"
    using m(2) by auto
  then show "t \<in> set (rmatch ic (Rep n c) s)"
    unfolding rmatch.simps set_map by (rule image_eqI [rotated])
qed

lemma rmatch_lang:
  "eol_free r \<Longrightarrow> set (rmatch ic r s) = {t. \<exists>m. s = m @ t \<and> m \<in> lang ic r}"
proof (induction r arbitrary: s)
  case Eps
  then show ?case by auto
next
  case (Chr c)
  then show ?case by (cases s) auto
next
  case (Rep n c)
  then show ?case by (simp only: rmatch_Rep_set lang.simps mem_Collect_eq)
next
  case (Opt r)
  then show ?case by auto
next
  case (Seq r1 r2)
  then have 1: "\<And>s. set (rmatch ic r1 s) = {t. \<exists>m. s = m @ t \<and> m \<in> lang ic r1}"
    and 2: "\<And>s. set (rmatch ic r2 s) = {t. \<exists>m. s = m @ t \<and> m \<in> lang ic r2}"
    by simp_all
  show ?case
  proof (intro set_eqI iffI)
    fix t assume "t \<in> set (rmatch ic (Seq r1 r2) s)"
    then obtain u where "u \<in> set (rmatch ic r1 s)" "t \<in> set (rmatch ic r2 u)" by auto
    then obtain m1 m2 where "s = m1 @ u" "m1 \<in> lang ic r1" "u = m2 @ t" "m2 \<in> lang ic r2"
      unfolding 1 2 by blast
    then have "s = (m1 @ m2) @ t \<and> m1 @ m2 \<in> lang ic (Seq r1 r2)" by auto
    then show "t \<in> {t. \<exists>m. s = m @ t \<and> m \<in> lang ic (Seq r1 r2)}" by blast
  next
    fix t assume "t \<in> {t. \<exists>m. s = m @ t \<and> m \<in> lang ic (Seq r1 r2)}"
    then obtain m1 m2 where m: "s = (m1 @ m2) @ t" "m1 \<in> lang ic r1" "m2 \<in> lang ic r2" by auto
    then have "m2 @ t \<in> set (rmatch ic r1 s)" unfolding 1 by auto
    moreover have "t \<in> set (rmatch ic r2 (m2 @ t))" unfolding 2 using m by auto
    ultimately show "t \<in> set (rmatch ic (Seq r1 r2) s)" by auto
  qed
next
  case (Alt rs)
  then have "\<And>r s. r \<in> set rs \<Longrightarrow> set (rmatch ic r s) = {t. \<exists>m. s = m @ t \<and> m \<in> lang ic r}"
    by (simp add: list_all_iff)
  then show ?case by auto
next
  case Eol
  then show ?case by simp
qed

lemma lang_lit: "lang True (lit w) = {m. lower m = lower w}"
proof (induction w)
  case Nil
  then show ?case by (auto simp: lower_def)
next
  case (Cons c w)
  show ?case
  proof (intro set_eqI iffI)
    fix m assume "m \<in> lang True (lit (c # w))"
    then obtain x m2 where "m = x # m2" "lower_char x = lower_char c" "m2 \<in> lang True (lit w)"
      by auto
    with Cons show "m \<in> {m. lower m = lower (c # w)}" by (simp add: lower_def)
  next
    fix m assume "m \<in> {m. lower m = lower (c # w)}"
    then obtain x m2 where "m = x # m2" "lower_char x = lower_char c" "lower m2 = lower w"
      by (cases m) (auto simp: lower_def)
    with Cons have "m = [x] @ m2 \<and> [x] \<in> lang True (Chr (Lit c)) \<and> m2 \<in> lang True (lit w)"
      by simp
    then show "m \<in> lang True (lit (c # w))" unfolding lit.simps lang.simps by blast
  qed
qed

lemma eol_free_lit: "eol_free (lit w)"
  by (induction w) simp_all

lemma code_less_256: "code c < 256"
  unfolding code_def by (metis of_char_mod_256 mod_less_divisor zero_less_numeral)

lemma code_lower_char:
  "code (lower_char c) =
     (if (65 \<le> code c \<and> code c \<le> 90) \<or> (192 \<le> code c \<and> code c \<le> 214)
          \<or> (216 \<le> code c \<and> code c \<le> 222)
      then code c + 32 else code c)"
  by (auto simp: lower_char_def code_def)

lemma is_word_lower_char: "is_word (lower_char c) = is_word c"
  unfolding is_word_def code_lower_char by auto

lemma isspace_lower_char: "isspace_char (lower_char c) = isspace_char c"
  unfolding isspace_char_def code_lower_char by auto

lemma is_linebreak_lower_char: "is_linebreak (lower_char c) = is_linebreak c"
  unfolding is_linebreak_def code_lower_char by auto



lemma lower_eq_append:
  "lower m = lower (a @ b) \<longleftrightarrow> (\<exists>m1 m2. m = m1 @ m2 \<and> lower m1 = lower a \<and> lower m2 = lower b)"
  unfolding lower_def map_append map_eq_append_conv by metis

lemma lower_eq_Nil: "lower m = lower [] \<longleftrightarrow> m = []"
  by (simp add: lower_def)

lemma lang_email:
  "lang True (Seq (lit ''E'') (Seq (Opt (lit ''-'')) (lit ''Mail''))) =
     {m. lower m = lower ''E-Mail'' \<or> lower m = lower ''EMail''}"
proof -
  have 1: "''E-Mail'' = ''E'' @ ''-'' @ ''Mail''" and 2: "''EMail'' = ''E'' @ ''Mail''" by simp_all
  have "lang True (Seq (lit ''E'') (Seq (Opt (lit ''-'')) (lit ''Mail''))) =
      {m1 @ m2 @ m3 | m1 m2 m3. lower m1 = lower ''E'' \<and> (lower m2 = lower ''-'' \<or> m2 = [])
          \<and> lower m3 = lower ''Mail''}"
    unfolding lang.simps(5) [of True "lit ''E''"] lang.simps(5) [of True "Opt (lit ''-'')"]
      lang.simps(4) lang_lit
    by blast
  also have "\<dots> = {m. lower m = lower ''E-Mail'' \<or> lower m = lower ''EMail''}"
    unfolding 1 2 lower_eq_append by (auto simp: lower_eq_Nil) (metis append_Nil)+
  finally show ?thesis .
qed

lemma RE_FILTER_alt: "RE_FILTER = \<lparr>re = Seq (Rep 0 NonWord) (Seq label_alternatives Eol), ignorecase = True\<rparr>"
  by (simp add: RE_FILTER_def label_alternatives_def)

lemma eol_free_label_alternatives: "eol_free label_alternatives"
  by (simp add: label_alternatives_def eol_free_lit)

lemma lang_label_alternatives:
  "lang True label_alternatives = {m. \<exists>l\<in>set labels. lower m = lower l}"
  unfolding label_alternatives_def lang.simps(6) list.map lang_lit lang_email labels_def
  by auto

lemma rmatch_Seq_Eol:
  "rmatch ic (Seq a (Seq b Eol)) s \<noteq> [] \<longleftrightarrow>
     (\<exists>u\<in>set (rmatch ic a s). \<exists>v\<in>set (rmatch ic b u). v = [] \<or> v = [CHR 0x0A])"
  by auto

lemma re_match_RE_FILTER:
  "re_match RE_FILTER s \<longleftrightarrow>
     (\<exists>pre lab t. s = pre @ lab @ t \<and> (\<forall>c\<in>set pre. \<not> is_word c) \<and>
        (\<exists>l\<in>set labels. lower lab = lower l) \<and> (t = [] \<or> t = [CHR 0x0A]))"
proof -
  have "re_match RE_FILTER s \<longleftrightarrow>
      (\<exists>u\<in>set (rmatch True (Rep 0 NonWord) s).
         \<exists>v\<in>set (rmatch True label_alternatives u). v = [] \<or> v = [CHR 0x0A])"
    unfolding re_match_def RE_FILTER_alt by (simp only: pattern.simps rmatch_Seq_Eol)
  also have "\<dots> \<longleftrightarrow>
      (\<exists>u v. (\<exists>pre. s = pre @ u \<and> (\<forall>c\<in>set pre. \<not> is_word c)) \<and>
             (\<exists>lab. u = lab @ v \<and> (\<exists>l\<in>set labels. lower lab = lower l)) \<and>
             (v = [] \<or> v = [CHR 0x0A]))"
    unfolding rmatch_Rep_set rmatch_lang [OF eol_free_label_alternatives] lang_label_alternatives
    by (auto simp: list_all_iff)
  also have "\<dots> \<longleftrightarrow>
      (\<exists>pre lab t. s = pre @ lab @ t \<and> (\<forall>c\<in>set pre. \<not> is_word c) \<and>
        (\<exists>l\<in>set labels. lower lab = lower l) \<and> (t = [] \<or> t = [CHR 0x0A]))"
    by blast
  finally show ?thesis .
qed

lemma is_linebreak_LF: "is_linebreak (CHR 0x0A)"
  by (simp add: is_linebreak_def code_def)

lemma splitlines_from_chars:
  "\<forall>l\<in>set (splitlines_from cur s). \<forall>x\<in>set l. x \<in> set cur \<or> \<not> is_linebreak x"
proof (induction cur s rule: splitlines_from.induct)
  case (1 cur)
  show ?case by simp
next
  case (2 cur c cs)
  show ?case
  proof (cases "is_linebreak c")
    case False
    from 2(4) [OF False] have "\<forall>l\<in>set (splitlines_from (c # cur) cs).
        \<forall>x\<in>set l. x \<in> set cur \<or> \<not> is_linebreak x"
      using False by auto
    with False show ?thesis by simp
  next
    case brk: True
    have "\<exists>rest. splitlines_from cur (c # cs) = rev cur # splitlines_from [] rest \<and>
        (\<forall>l\<in>set (splitlines_from [] rest). \<forall>x\<in>set l. \<not> is_linebreak x)"
    proof (cases cs)
      case Nil
      have "splitlines_from cur (c # cs) = rev cur # splitlines_from [] cs"
        by (subst splitlines_from.simps(2)) (simp only: brk Nil if_True list.case)
      moreover from 2(1) [OF brk Nil]
      have "\<forall>l\<in>set (splitlines_from [] cs). \<forall>x\<in>set l. \<not> is_linebreak x"
        by simp
      ultimately show ?thesis by blast
    next
      case (Cons d ds)
      show ?thesis
      proof (cases "code c = 13 \<and> code d = 10")
        case True
        have "splitlines_from cur (c # cs) = rev cur # splitlines_from [] ds"
          by (subst splitlines_from.simps(2))
             (simp only: brk Cons True if_True list.case simp_thms)
        moreover from 2(2) [OF brk Cons True]
        have "\<forall>l\<in>set (splitlines_from [] ds). \<forall>x\<in>set l. \<not> is_linebreak x"
          by simp
        ultimately show ?thesis by blast
      next
        case False
        have "splitlines_from cur (c # cs) = rev cur # splitlines_from [] cs"
          by (subst splitlines_from.simps(2))
             (simp only: brk Cons False if_True if_False list.case simp_thms)
        moreover from 2(3) [OF brk Cons False]
        have "\<forall>l\<in>set (splitlines_from [] cs). \<forall>x\<in>set l. \<not> is_linebreak x"
          by simp
        ultimately show ?thesis by blast
      qed
    qed
    then obtain rest where eq: "splitlines_from cur (c # cs) = rev cur # splitlines_from [] rest"
      and rest: "\<forall>l\<in>set (splitlines_from [] rest). \<forall>x\<in>set l. \<not> is_linebreak x"
      by blast
    show ?thesis unfolding eq using rest by simp
  qed
qed

lemma splitlines_no_linebreak:
  "l \<in> set (splitlines s) \<Longrightarrow> c \<in> set l \<Longrightarrow> \<not> is_linebreak c"
  unfolding splitlines_def using splitlines_from_chars [of "[]" s] by simp

lemma re_match_line:
  assumes "\<forall>c\<in>set line. \<not> is_linebreak c"
  shows "re_match RE_FILTER line \<longleftrightarrow>
     (\<exists>pre lab. line = pre @ lab \<and> (\<forall>c\<in>set pre. \<not> is_word c) \<and>
        (\<exists>l\<in>set labels. lower lab = lower l))"
proof -
  have "\<And>pre lab. line \<noteq> pre @ lab @ [CHR 0x0A]"
    using assms is_linebreak_LF by auto
  then show ?thesis unfolding re_match_RE_FILTER by (metis append_Nil2)
qed

lemma any_line_matches_iff:
  "any_line_matches ls \<longleftrightarrow> (\<exists>line\<in>set ls. re_match RE_FILTER line)"
  by (induction ls) simp_all

section \<open>Claims about the structural text filter\<close>

lemma text_chars_test_iff:
  "text_chars_test t \<longleftrightarrow> (\<exists>s. t = Some s \<and> s \<noteq> [] \<and> \<not> list_all isspace_char s)"
  by (cases t) (auto simp: text_chars_test_def isspace_def)

lemma textfilter_no_usable_text: "\<not> text_chars_test (testtext_of e) \<Longrightarrow> textfilter e"
  by (simp add: textfilter_def)

lemma textfilter_lines:
  assumes "testtext_of e = Some s" and "text_chars_test (Some s)"
  shows "textfilter e \<longleftrightarrow> (\<exists>line\<in>set (splitlines s). re_match RE_FILTER line)"
  using assms by (simp add: textfilter_def any_line_matches_iff)

lemma splitlines_from_plain:
  "\<forall>c\<in>set s. \<not> is_linebreak c \<Longrightarrow> cur \<noteq> [] \<or> s \<noteq> [] \<Longrightarrow>
   splitlines_from cur s = [rev cur @ s]"
  by (induction s arbitrary: cur) simp_all

lemma splitlines_plain:
  "s \<noteq> [] \<Longrightarrow> \<forall>c\<in>set s. \<not> is_linebreak c \<Longrightarrow> splitlines s = [s]"
  by (simp add: splitlines_def splitlines_from_plain)

lemma labels_plain: "\<forall>l\<in>set labels. l \<noteq> [] \<and> (\<forall>c\<in>set l. \<not> is_linebreak c)"
  by code_simp

lemma label_variant_plain:
  assumes "l \<in> set labels" and "lower lab = lower l"
  shows "lab \<noteq> [] \<and> (\<forall>c\<in>set lab. \<not> is_linebreak c)"
proof
  from assms labels_plain show "lab \<noteq> []" by (auto simp: lower_def)
next
  show "\<forall>c\<in>set lab. \<not> is_linebreak c"
  proof
    fix c assume "c \<in> set lab"
    then have "lower_char c \<in> set (lower lab)" by (simp add: lower_def)
    with assms(2) obtain c' where c': "c' \<in> set l" "lower_char c = lower_char c'"
      by (auto simp: lower_def)
    from c'(1) assms(1) labels_plain have "\<not> is_linebreak c'" by blast
    with c'(2) show "\<not> is_linebreak c"
      by (metis is_linebreak_lower_char)
  qed
qed


text \<open>
  Claim C9. For a block with usable text, \<open>textfilter\<close> rejects the block exactly when one
  line of its effective text is made of non-word characters (possibly none) followed by one
  of the fixed labels, in any mix of upper and lower case, and nothing after it. A
  line in which every reading of a label at its end leaves a word character before that
  label does not match the pattern. (\<open>E-Mail\<close> and \<open>EMail\<close> are labels themselves: their
  \<open>E\<close> is part of the label, not a character before \<open>Mail\<close>.)
\<close>
theorem boilerplate_label_lines:
  assumes "testtext_of e = Some s" and "text_chars_test (Some s)"
  shows "(textfilter e \<longleftrightarrow>
           (\<exists>line\<in>set (splitlines s). \<exists>pre lab. line = pre @ lab \<and>
              (\<forall>c\<in>set pre. \<not> is_word c) \<and> (\<exists>l\<in>set labels. lower lab = lower l))) \<and>
         (\<forall>line\<in>set (splitlines s).
            (\<forall>pre lab. line = pre @ lab \<and> (\<exists>l\<in>set labels. lower lab = lower l)
                \<longrightarrow> (\<exists>c\<in>set pre. is_word c))
            \<longrightarrow> \<not> re_match RE_FILTER line)"
proof
  have line: "re_match RE_FILTER line =
      (\<exists>pre lab. line = pre @ lab \<and> (\<forall>c\<in>set pre. \<not> is_word c) \<and>
         (\<exists>l\<in>set labels. lower lab = lower l))"
    if "line \<in> set (splitlines s)" for line
  proof (rule re_match_line, rule ballI)
    fix c assume "c \<in> set line"
    with that show "\<not> is_linebreak c" by (rule splitlines_no_linebreak)
  qed
  show "textfilter e \<longleftrightarrow>
           (\<exists>line\<in>set (splitlines s). \<exists>pre lab. line = pre @ lab \<and>
              (\<forall>c\<in>set pre. \<not> is_word c) \<and> (\<exists>l\<in>set labels. lower lab = lower l))"
    unfolding textfilter_lines [OF assms] by (rule bex_cong [OF refl line])
  show "\<forall>line\<in>set (splitlines s).
            (\<forall>pre lab. line = pre @ lab \<and> (\<exists>l\<in>set labels. lower lab = lower l)
                \<longrightarrow> (\<exists>c\<in>set pre. is_word c))
            \<longrightarrow> \<not> re_match RE_FILTER line"
  proof (intro ballI impI notI)
    fix ln
    assume mem: "ln \<in> set (splitlines s)"
      and h: "\<forall>pre lab. ln = pre @ lab \<and> (\<exists>l\<in>set labels. lower lab = lower l)
                \<longrightarrow> (\<exists>c\<in>set pre. is_word c)"
      and m: "re_match RE_FILTER ln"
    from m obtain pre lab where d: "ln = pre @ lab" "\<forall>c\<in>set pre. \<not> is_word c"
      "\<exists>l\<in>set labels. lower lab = lower l"
      unfolding line [OF mem] by blast
    from h d(1,3) have "\<exists>c\<in>set pre. is_word c" by blast
    with d(2) show False by blast
  qed
qed


theorem boilerplate_label_lines_witness:
  "testtext_of (Element None [] (Some (''Tags'' @ [CHR 0x0A] @ ''- Facebook''))) =
     Some (''Tags'' @ [CHR 0x0A] @ ''- Facebook'') \<and>
   text_chars_test (Some (''Tags'' @ [CHR 0x0A] @ ''- Facebook'')) \<and>
   textfilter (Element None [] (Some (''Tags'' @ [CHR 0x0A] @ ''- Facebook'')))"
proof -
  let ?s = "''Tags'' @ [CHR 0x0A] @ ''- Facebook''"
  let ?e = "Element None [] (Some ?s)"
  let ?P = "\<lambda>line. \<exists>pre lab. line = pre @ lab \<and>
      (\<forall>c\<in>set pre. \<not> is_word c) \<and> (\<exists>l\<in>set labels. lower lab = lower l)"
  have h1: "testtext_of ?e = Some ?s" by (simp add: testtext_of_def)
  have h2: "text_chars_test (Some ?s)" by code_simp
  have "splitlines ?s = [''Tags'', ''- Facebook'']" by code_simp
  then have mem: "''- '' @ ''Facebook'' \<in> set (splitlines ?s)" by simp
  have pre: "\<forall>c\<in>set ''- ''. \<not> is_word c" by code_simp
  have "''Facebook'' \<in> set labels" by (simp add: labels_def)
  then have lab: "\<exists>l\<in>set labels. lower ''Facebook'' = lower l"
    by (rule bexI [of "\<lambda>l. lower ''Facebook'' = lower l", OF refl])
  have P: "?P (''- '' @ ''Facebook'')"
    by (rule exI [of _ "''- ''"], rule exI [of _ "''Facebook''"]) (intro conjI refl pre lab)
  have "\<exists>line\<in>set (splitlines ?s). ?P line" by (rule bexI [of ?P, OF P mem])
  with boilerplate_label_lines [OF h1 h2] have "textfilter ?e" by (rule conjunct1 [THEN iffD2])
  with h1 h2 show ?thesis by (intro conjI)
qed

text \<open>
  Claim C2, as the code has it. \<open>RE_FILTER\<close> is matched from the start of each line and
  allows only non-word characters before the label, so a block whose only text is
  \<open>Share on Facebook\<close> is not rejected.
\<close>
theorem share_on_facebook_not_rejected:
  "\<not> textfilter (Element (Some ''Share on Facebook'') [] None)"
  by code_simp


text \<open>
  Claim C2, amended. A block whose text is one of the labels in any mix of upper and lower
  case, alone on its line or after non-word characters only, such as \<open>Facebook\<close> or
  \<open>- FACEBOOK\<close>, is rejected.
\<close>

theorem label_only_block_rejected:
  assumes "l \<in> set labels" and "lower lab = lower l"
    and "\<forall>c\<in>set pre. \<not> is_word c \<and> \<not> is_linebreak c"
  shows "textfilter (Element (Some (pre @ lab)) cs ta)"
proof (cases "text_chars_test (Some (pre @ lab))")
  case False
  then show ?thesis by (simp add: textfilter_def testtext_of_def)
next
  case True
  from assms(1,2) have lab: "lab \<noteq> []" "\<forall>c\<in>set lab. \<not> is_linebreak c"
    using label_variant_plain by blast+
  with assms(3) have "splitlines (pre @ lab) = [pre @ lab]"
    by (intro splitlines_plain) auto
  moreover have "re_match RE_FILTER (pre @ lab)"
    unfolding re_match_RE_FILTER using assms by (metis append_Nil2)
  moreover have "testtext_of (Element (Some (pre @ lab)) cs ta) = Some (pre @ lab)"
    by (simp add: testtext_of_def)
  ultimately show ?thesis using True by (simp add: textfilter_lines)
qed


theorem label_only_block_rejected_witness:
  "''Facebook'' \<in> set labels \<and> lower ''FACEBOOK'' = lower ''Facebook'' \<and>
   list_all (\<lambda>c. \<not> is_word c \<and> \<not> is_linebreak c) ''- '' \<and>
   textfilter (Element (Some ''- FACEBOOK'') [] None)"
proof -
  have h1: "''Facebook'' \<in> set labels" by (simp add: labels_def)
  have h2: "lower ''FACEBOOK'' = lower ''Facebook''" by code_simp
  have h3: "list_all (\<lambda>c. \<not> is_word c \<and> \<not> is_linebreak c) ''- ''" by code_simp
  then have h3': "\<forall>c\<in>set ''- ''. \<not> is_word c \<and> \<not> is_linebreak c"
    unfolding list_all_iff .
  from label_only_block_rejected [OF h1 h2 h3', of "[]" None]
  have "textfilter (Element (Some ''- FACEBOOK'') [] None)" by simp
  with h1 h2 h3 show ?thesis by (intro conjI)
qed

text \<open>
  Claim C7, at a text that consists of one control character, DEL (U+007F).
  \<open>text_chars_test\<close> uses \<open>str.isspace\<close>, which is true of the whitespace characters only:
  the text counts as usable, and \<open>textfilter\<close> keeps the block.
\<close>
theorem control_character_text_counts_as_usable:
  "list_all is_control [CHR 0x7F] \<and> text_chars_test (Some [CHR 0x7F]) = True \<and>
   textfilter (Element (Some [CHR 0x7F]) [] None) = False"
  by code_simp


section \<open>Claims about the language gate\<close>

text \<open>
  Claim C6. Without the detector (\<open>LANGID_FLAG\<close> false), \<open>language_filter\<close> with a target
  language returns \<open>False\<close> for every input and appends exactly one record of level
  \<open>WARNING\<close> to the log. Without a target language it returns \<open>False\<close> and leaves the log as
  it is, whether the detector is there or not.
\<close>
theorem language_gate_fail_open:
  "language_filter False get_language temp_text temp_comments (Some target) docmeta log =
     (Inr False,
      log @ [\<lparr>level = WARNING, msg = ''Detector not installed, no language detection run'',
              args = []\<rparr>]) \<and>
   language_filter LANGID_FLAG get_language temp_text temp_comments None docmeta log =
     (Inr False, log)"
  by (simp add: language_filter_def)

section \<open>The word pattern finds the qualifying tokens\<close>

lemma class_ok_Word: "class_ok ic Word = is_word"
  by (rule ext) simp

lemma findall_from_WORD5:
  "findall_from RE_WORD5 ma s =
     (if 5 \<le> length (takeWhile is_word s)
      then takeWhile is_word s # findall_from RE_WORD5 False (dropWhile is_word s)
      else (case s of [] \<Rightarrow> [] | c # cs \<Rightarrow> findall_from RE_WORD5 False cs))"
proof (cases "5 \<le> length (takeWhile is_word s)")
  case False
  then have "[5..<Suc (length (takeWhile is_word s))] = []" by simp
  then have "rmatch (ignorecase RE_WORD5) (re RE_WORD5) s = []"
    by (simp add: RE_WORD5_def class_ok_Word)
  with False show ?thesis by (subst findall_from.simps) simp
next
  case True
  let ?L = "length (takeWhile is_word s)"
  have Ls: "?L \<le> length s" by (rule length_takeWhile_le)
  have cands: "rmatch (ignorecase RE_WORD5) (re RE_WORD5) s =
      map (\<lambda>k. drop k s) (rev [5..<Suc ?L])"
    by (simp add: RE_WORD5_def class_ok_Word)
  have "\<forall>k\<in>set (rev [5..<Suc ?L]). length (drop k s) < length s"
    using Ls True by auto
  then have keep: "filter (\<lambda>rest. \<not> ma \<or> length rest < length s)
      (map (\<lambda>k. drop k s) (rev [5..<Suc ?L])) = map (\<lambda>k. drop k s) (rev [5..<Suc ?L])"
    by (simp add: filter_map o_def)
  from True have "[5..<Suc ?L] = [5..<?L] @ [?L]" by simp
  then have hd: "map (\<lambda>k. drop k s) (rev [5..<Suc ?L]) =
      drop ?L s # map (\<lambda>k. drop k s) (rev [5..<?L])"
    by simp
  have d: "drop ?L s = dropWhile is_word s" by (rule dropWhile_eq_drop [symmetric])
  have t: "take ?L s = takeWhile is_word s" by (rule takeWhile_eq_take [symmetric])
  have lt: "length (dropWhile is_word s) < length s"
    using True Ls unfolding d [symmetric] by simp
  have len: "length s - length (dropWhile is_word s) = ?L"
    unfolding d [symmetric] using Ls by simp
  show ?thesis
    by (subst findall_from.simps) (simp add: cands keep hd d lt len t True del: upt_Suc)
qed

lemma split_nonword_nonempty: "split_nonword s \<noteq> []"
  by (induction s) (simp_all split: list.splits)

lemma split_nonword_sep:
  "\<not> is_word x \<Longrightarrow> split_nonword (a @ x # b) = split_nonword a @ split_nonword b"
proof (induction a)
  case Nil
  then show ?case by simp
next
  case (Cons c a)
  then show ?case
    using split_nonword_nonempty [of a] by (cases "split_nonword a") simp_all
qed

lemma split_nonword_word: "\<forall>c\<in>set r. is_word c \<Longrightarrow> split_nonword r = [r]"
  by (induction r) simp_all

lemma word_runs_sep: "\<not> is_word x \<Longrightarrow> word_runs (a @ x # b) = word_runs a @ word_runs b"
  by (simp add: word_runs_def split_nonword_sep)

lemma word_runs_word: "\<forall>c\<in>set r. is_word c \<Longrightarrow> word_runs r = (if r = [] then [] else [r])"
  by (simp add: word_runs_def split_nonword_word)

lemma qualifying_tokens_sep:
  "\<not> is_word x \<Longrightarrow> qualifying_tokens (a @ x # b) = qualifying_tokens a @ qualifying_tokens b"
  by (simp add: qualifying_tokens_def word_runs_sep)

lemma qualifying_tokens_word:
  "\<forall>c\<in>set r. is_word c \<Longrightarrow> qualifying_tokens r = (if 5 \<le> length r then [r] else [])"
  by (auto simp: qualifying_tokens_def word_runs_word)

lemma findall_from_WORD5_Nil: "findall_from RE_WORD5 ma [] = []"
  by (subst findall_from_WORD5) simp

lemma findall_from_WORD5_nonword:
  "\<not> is_word x \<Longrightarrow> findall_from RE_WORD5 ma (x # b) = findall_from RE_WORD5 False b"
  by (subst findall_from_WORD5) simp

lemma takeWhile_run:
  "\<forall>c\<in>set r. is_word c \<Longrightarrow> rest = [] \<or> \<not> is_word (hd rest) \<Longrightarrow>
   takeWhile is_word (r @ rest) = r"
  by (cases rest) (simp_all add: takeWhile_append2)

lemma findall_from_WORD5_short:
  "\<forall>c\<in>set r. is_word c \<Longrightarrow> length r < 5 \<Longrightarrow> rest = [] \<or> \<not> is_word (hd rest) \<Longrightarrow>
   findall_from RE_WORD5 ma (r @ rest) = findall_from RE_WORD5 False rest"
proof (induction r arbitrary: ma)
  case Nil
  show ?case
  proof (cases rest)
    case Nil
    then show ?thesis by (simp add: findall_from_WORD5_Nil)
  next
    case (Cons x b)
    with Nil.prems show ?thesis by (simp add: findall_from_WORD5_nonword)
  qed
next
  case (Cons c r)
  from Cons.prems have tw: "takeWhile is_word ((c # r) @ rest) = c # r"
    by (intro takeWhile_run) simp_all
  have "findall_from RE_WORD5 ma ((c # r) @ rest) = findall_from RE_WORD5 False (r @ rest)"
    using Cons.prems(2) by (subst findall_from_WORD5) (simp only: tw, simp)
  also have "\<dots> = findall_from RE_WORD5 False rest"
    using Cons.prems by (intro Cons.IH) simp_all
  finally show ?case .
qed

lemma findall_from_WORD5_long:
  assumes "\<forall>c\<in>set r. is_word c" and "5 \<le> length r" and "rest = [] \<or> \<not> is_word (hd rest)"
  shows "findall_from RE_WORD5 ma (r @ rest) = r # findall_from RE_WORD5 False rest"
proof -
  from assms have tw: "takeWhile is_word (r @ rest) = r" by (intro takeWhile_run)
  have "dropWhile is_word (r @ rest) = drop (length (takeWhile is_word (r @ rest))) (r @ rest)"
    by (rule dropWhile_eq_drop)
  then have dw: "dropWhile is_word (r @ rest) = rest" by (simp add: tw)
  show ?thesis using assms(2) by (subst findall_from_WORD5) (simp only: tw dw, simp)
qed

lemma findall_from_WORD5_tokens: "findall_from RE_WORD5 False s = qualifying_tokens s"
proof (induction s rule: length_induct)
  case (1 s)
  let ?r = "takeWhile is_word s" and ?rest = "dropWhile is_word s"
  have s: "s = ?r @ ?rest" by simp
  have r: "\<forall>c\<in>set ?r. is_word c" by (auto dest: set_takeWhileD)
  have rest: "?rest = [] \<or> \<not> is_word (hd ?rest)" by (metis hd_dropWhile)
  have F: "findall_from RE_WORD5 False s =
      (if 5 \<le> length ?r then [?r] else []) @ findall_from RE_WORD5 False ?rest"
  proof (cases "5 \<le> length ?r")
    case True
    then show ?thesis by (subst findall_from_WORD5) simp
  next
    case False
    then have "length ?r < 5" by simp
    from findall_from_WORD5_short [OF r this rest, of False] False show ?thesis by simp
  qed
  have q0: "qualifying_tokens [] = []"
    by (simp add: qualifying_tokens_def word_runs_def)
  have "findall_from RE_WORD5 False ?rest = qualifying_tokens ?rest \<and>
      qualifying_tokens s = (if 5 \<le> length ?r then [?r] else []) @ qualifying_tokens ?rest"
  proof (cases ?rest)
    case Nil
    have sr: "?r = s" by (metis Nil append_Nil2 takeWhile_dropWhile_id)
    with r have "\<forall>c\<in>set s. is_word c" by metis
    then have "qualifying_tokens s = (if 5 \<le> length s then [s] else [])"
      by (rule qualifying_tokens_word)
    then show ?thesis unfolding Nil sr by (simp add: q0 findall_from_WORD5_Nil)
  next
    case (Cons x b)
    with rest have x: "\<not> is_word x" by simp
    have sx: "s = ?r @ x # b" by (metis Cons takeWhile_dropWhile_id)
    then have "length s = length ?r + Suc (length b)" by (metis length_append length_Cons)
    then have "length b < length s" by simp
    with 1 have IH: "findall_from RE_WORD5 False b = qualifying_tokens b" by blast
    have "qualifying_tokens (?r @ x # b) = qualifying_tokens ?r @ qualifying_tokens b"
      using x by (rule qualifying_tokens_sep)
    with sx have 2: "qualifying_tokens s = qualifying_tokens ?r @ qualifying_tokens b" by metis
    have 3: "qualifying_tokens ?r = (if 5 \<le> length ?r then [?r] else [])"
      using r by (rule qualifying_tokens_word)
    have 4: "qualifying_tokens (x # b) = qualifying_tokens b"
      using qualifying_tokens_sep [OF x, of "[]" b] by (simp add: q0)
    have 5: "findall_from RE_WORD5 False (x # b) = findall_from RE_WORD5 False b"
      using x by (rule findall_from_WORD5_nonword)
    show ?thesis unfolding Cons 2 3 4 5 IH by simp
  qed
  then have "findall_from RE_WORD5 False ?rest = qualifying_tokens ?rest"
    and "qualifying_tokens s =
      (if 5 \<le> length ?r then [?r] else []) @ qualifying_tokens ?rest"
    by simp_all
  with F show ?case by simp
qed

lemma findall_WORD5: "findall RE_WORD5 s = qualifying_tokens s"
  by (simp add: findall_def findall_from_WORD5_tokens)

section \<open>Digest and encoding\<close>

lemma content_fingerprint_tokens:
  "content_fingerprint s =
     decode_ascii (b64encode (sha1 (encode (join_sp (qualifying_tokens (lower s))))))"
  by (simp add: content_fingerprint_def findall_WORD5)

lemma length_digest: "length (digest st) = 20"
  by (cases st rule: digest.cases) (simp add: be32_bytes_def)

lemma length_sha1: "length (sha1 m) = 20"
  by (simp add: sha1_def Let_def length_digest)

lemma length_b64encode: "length (b64encode bs) = 4 * ((length bs + 2) div 3)"
proof (induction bs rule: b64encode.induct)
  case (1 a b c bs)
  have "(length (a # b # c # bs) + 2) div 3 = Suc ((length bs + 2) div 3)" by simp
  with 1 show ?case by simp
qed simp_all

lemma length_decode_ascii: "length (decode_ascii bs) = length bs"
  by (simp add: decode_ascii_def)

lemma decode_b64_char: "char_of (unat (b64_char i)) = b64_alphabet ! (i mod 64)"
  by (simp add: b64_char_def unat_of_nat)

lemma length_b64_alphabet: "length b64_alphabet = 64"
  by (simp add: b64_alphabet_def)

lemma decode_b64_char_in: "char_of (unat (b64_char i)) \<in> set b64_alphabet"
  unfolding decode_b64_char by (rule nth_mem) (simp add: length_b64_alphabet)

lemma char_of_61: "char_of (61 :: nat) = CHR ''=''"
  by code_simp

lemma decode_pad: "char_of (unat (0x3D :: byte)) = CHR ''=''"
  by (simp add: char_of_61)

lemma b64encode_chars:
  "set (decode_ascii (b64encode bs)) \<subseteq> set b64_alphabet \<union> {CHR ''=''}"
proof (induction bs rule: b64encode.induct)
  case (1 a b c bs)
  then show ?case by (simp add: decode_ascii_def decode_b64_char_in char_of_61)
next
  case (2 a b)
  show ?case by (simp add: decode_ascii_def decode_b64_char_in char_of_61)
next
  case (3 a)
  show ?case by (simp add: decode_ascii_def decode_b64_char_in char_of_61)
next
  case 4
  show ?case by (simp add: decode_ascii_def)
qed

lemma no_newline_in_alphabet: "CHR 0x0A \<notin> set b64_alphabet \<union> {CHR ''=''}"
  by (simp add: b64_alphabet_def)

lemma b64encode_padded:
  "length bs mod 3 = 2 \<Longrightarrow> last (decode_ascii (b64encode bs)) = CHR ''=''"
proof (induction bs rule: b64encode.induct)
  case (1 a b c bs)
  then have "length bs mod 3 = 2" by simp
  with 1 have IH: "last (decode_ascii (b64encode bs)) = CHR ''=''" by simp
  from \<open>length bs mod 3 = 2\<close> have "bs \<noteq> []" by auto
  then have "b64encode bs \<noteq> []" by (cases bs rule: b64encode.cases) simp_all
  with IH show ?case by (simp add: decode_ascii_def)
next
  case (2 a b)
  show ?case by (simp add: decode_ascii_def char_of_61)
next
  case (3 a)
  then show ?case by simp
next
  case 4
  then show ?case by simp
qed

section \<open>Claims about the content fingerprint\<close>




lemma has_word_run_iff:
  "has_word_run n s \<longleftrightarrow> (\<exists>i. i + n \<le> length s \<and> list_all is_word (take n (drop i s)))"
  unfolding has_word_run_def list_ex_iff by auto

lemma has_word_run_takeWhile:
  assumes "5 \<le> length (takeWhile is_word s)"
  shows "has_word_run 5 s"
proof -
  have "length (takeWhile is_word s) \<le> length s" by (rule length_takeWhile_le)
  with assms have len: "0 + 5 \<le> length s" by simp
  have "take 5 s = take 5 (takeWhile is_word s)"
    using assms by (subst takeWhile_eq_take) (simp add: min_absorb2)
  then have "\<forall>c\<in>set (take 5 s). is_word c"
    by (metis in_set_takeD set_takeWhileD)
  then have "list_all is_word (take 5 (drop 0 s))" by (simp add: list_all_iff)
  with len show ?thesis unfolding has_word_run_iff by blast
qed

lemma has_word_run_Cons: "has_word_run n cs \<Longrightarrow> has_word_run n (c # cs)"
proof -
  assume "has_word_run n cs"
  then obtain i where "i + n \<le> length cs" "list_all is_word (take n (drop i cs))"
    unfolding has_word_run_iff by blast
  then have "Suc i + n \<le> length (c # cs) \<and> list_all is_word (take n (drop (Suc i) (c # cs)))"
    by simp
  then show ?thesis unfolding has_word_run_iff by blast
qed

lemma findall_from_WORD5_no_run:
  "\<not> has_word_run 5 s \<Longrightarrow> findall_from RE_WORD5 ma s = []"
proof (induction s arbitrary: ma)
  case Nil
  show ?case by (rule findall_from_WORD5_Nil)
next
  case (Cons c cs)
  from Cons.prems have short: "\<not> 5 \<le> length (takeWhile is_word (c # cs))"
    using has_word_run_takeWhile by blast
  from Cons.prems have "\<not> has_word_run 5 cs" using has_word_run_Cons by blast
  then have "findall_from RE_WORD5 False cs = []" by (rule Cons.IH)
  moreover have "findall_from RE_WORD5 ma (c # cs) = findall_from RE_WORD5 False cs"
    by (subst findall_from_WORD5) (simp only: short if_False list.case)
  ultimately show ?case by simp
qed

lemma has_word_run_lower: "has_word_run n (lower s) = has_word_run n s"
proof -
  have "list_all is_word (take n (drop i (lower s))) = list_all is_word (take n (drop i s))" for i
    by (simp add: lower_def take_map drop_map list_all_iff is_word_lower_char)
  then show ?thesis unfolding has_word_run_iff by (simp add: lower_def)
qed


text \<open>
  Claim C4. \<open>content_fingerprint s\<close> is the base64 text of the SHA-1 digest of the UTF-8
  bytes of the string obtained from \<open>s\<close> by lowercasing, taking the maximal runs of word
  characters of length at least 5 in their order, and joining them with single spaces. The
  digest has 20 bytes; the text has 28 characters, ends with the padding character and has
  no line break. The fingerprint is a function of the string and nothing else, so equal
  inputs give equal outputs.
\<close>

theorem fingerprint_is_sha1_of_tokens:
  "content_fingerprint s =
     decode_ascii (b64encode (sha1 (encode (join_sp (qualifying_tokens (lower s)))))) \<and>
   length (sha1 (encode (join_sp (qualifying_tokens (lower s))))) = 20 \<and>
   length (content_fingerprint s) = 28 \<and>
   last (content_fingerprint s) = CHR ''='' \<and>
   CHR 0x0A \<notin> set (content_fingerprint s)"
proof (intro conjI)
  show "content_fingerprint s =
     decode_ascii (b64encode (sha1 (encode (join_sp (qualifying_tokens (lower s))))))"
    by (rule content_fingerprint_tokens)
  show "length (sha1 (encode (join_sp (qualifying_tokens (lower s))))) = 20"
    by (rule length_sha1)
  show "length (content_fingerprint s) = 28"
    by (simp add: content_fingerprint_tokens length_decode_ascii length_b64encode length_sha1)
  show "last (content_fingerprint s) = CHR ''=''"
    unfolding content_fingerprint_tokens by (rule b64encode_padded) (simp add: length_sha1)
  show "CHR 0x0A \<notin> set (content_fingerprint s)"
    unfolding content_fingerprint_tokens
    using b64encode_chars no_newline_in_alphabet by blast
qed





text \<open>
  Claim C10. A string without five word characters in a row (the empty string, punctuation
  and whitespace only, words shorter than 5) has the fingerprint of the empty byte
  sequence.
\<close>

theorem fingerprint_without_tokens:
  "\<not> has_word_run 5 s \<Longrightarrow> content_fingerprint s = decode_ascii (b64encode (sha1 []))"
proof -
  assume "\<not> has_word_run 5 s"
  then have "\<not> has_word_run 5 (lower s)" by (simp add: has_word_run_lower)
  then have "findall RE_WORD5 (lower s) = []"
    unfolding findall_def by (rule findall_from_WORD5_no_run)
  then show ?thesis by (simp add: content_fingerprint_def encode_def)
qed

theorem fingerprint_without_tokens_witness:
  "has_word_run 5 ''To be, or not to be: that is...'' = False \<and>
   content_fingerprint ''To be, or not to be: that is...'' = decode_ascii (b64encode (sha1 []))"
proof -
  have h: "\<not> has_word_run 5 ''To be, or not to be: that is...''" by code_simp
  from fingerprint_without_tokens [OF h] h show ?thesis by simp
qed

end
